theory Spec2Isabelle
  imports Complex_Main
begin

section \<open>Sparse vectors\<close>

text \<open>
  A \<open>SparseVector\<close> stores its nonzero entries as (index, value) pairs in
  increasing index order.  The field type is the template parameter of the source;
  here it is any type of class \<open>field\<close>.
\<close>

type_synonym 'a SparseVector = "(nat \<times> 'a) list"

text \<open>The data-model invariant of a sparse vector whose indices are bounded by \<open>m\<close>.\<close>

definition wf_vec :: "nat \<Rightarrow> 'a::zero SparseVector \<Rightarrow> bool" where
  "wf_vec m v \<longleftrightarrow>
     sorted_wrt (<) (map fst v) \<and> list_all (\<lambda>p. fst p < m \<and> snd p \<noteq> 0) v"

text \<open>
  Modelled from the spec: \<open>sparse_vector.h\<close> is not among the sources.  These are
  the primitives of section 4.2: sparse lookup of one entry, \<open>lower_bound\<close> (the first
  stored entry with index at least \<open>i0\<close>, or none), \<open>nzbegin\<close> (the first stored
  entry, or none), and the two \<open>axpy\<close> overloads the reduction kernel calls.
\<close>

definition getval :: "'a::zero SparseVector \<Rightarrow> nat \<Rightarrow> 'a" where
  "getval v i = (case map_of v i of None \<Rightarrow> 0 | Some a \<Rightarrow> a)"

definition lower_bound :: "'a SparseVector \<Rightarrow> nat \<Rightarrow> (nat \<times> 'a) option" where
  "lower_bound v i0 = List.find (\<lambda>p. i0 \<le> fst p) v"

definition nzbegin :: "'a SparseVector \<Rightarrow> (nat \<times> 'a) option" where
  "nzbegin v = (case v of [] \<Rightarrow> None | p # _ \<Rightarrow> Some p)"

text \<open>Entry-wise sum of two sorted vectors; an entry that becomes zero is dropped.\<close>

fun vadd :: "'a::field SparseVector \<Rightarrow> 'a SparseVector \<Rightarrow> 'a SparseVector" where
  "vadd [] ys = ys"
| "vadd (x # xs) [] = x # xs"
| "vadd ((i, a) # xs) ((j, b) # ys) =
     (if i < j then (i, a) # vadd xs ((j, b) # ys)
      else if j < i then (j, b) # vadd ((i, a) # xs) ys
      else if a + b = 0 then vadd xs ys
      else (i, a + b) # vadd xs ys)"

definition vscale :: "'a::field \<Rightarrow> 'a SparseVector \<Rightarrow> 'a SparseVector" where
  "vscale c v = filter (\<lambda>p. snd p \<noteq> 0) (map (\<lambda>p. (fst p, c * snd p)) v)"

definition vrange :: "nat \<Rightarrow> nat \<Rightarrow> 'a SparseVector \<Rightarrow> 'a SparseVector" where
  "vrange lo hi v = filter (\<lambda>p. lo \<le> fst p \<and> fst p < hi) v"

text \<open>
  \<open>y.axpy(a, x, lo, hi)\<close>: add \<open>a * x\<close>, restricted to the indices in the half-open
  range \<open>[lo, hi)\<close>, into \<open>y\<close>.
\<close>

definition axpy ::
  "'a::field \<Rightarrow> 'a SparseVector \<Rightarrow> nat \<Rightarrow> nat \<Rightarrow> 'a SparseVector \<Rightarrow> 'a SparseVector" where
  "axpy a x lo hi y = vadd y (vscale a (vrange lo hi x))"

text \<open>The sparse vector of the first \<open>k\<close> values of \<open>f\<close>, zeros left out.\<close>

definition vec_of :: "nat \<Rightarrow> (nat \<Rightarrow> 'a::zero) \<Rightarrow> 'a SparseVector" where
  "vec_of k f = filter (\<lambda>p. snd p \<noteq> 0) (map (\<lambda>i. (i, f i)) [0..<k])"

text \<open>
  \<open>y.axpy(x, coeff, pivs)\<close>: the deferred update of a column of \<open>U\<close>.  The \<open>k\<close>-th
  recorded elimination has pivot row \<open>pivs[k]\<close> and scalar \<open>coeff[k]\<close>; the entry that
  \<open>x\<close> still holds in that row, times the scalar, is added to \<open>y\<close> at index \<open>k\<close>.
\<close>

definition axpy_pivs ::
  "'a::field SparseVector \<Rightarrow> 'a list \<Rightarrow> nat list \<Rightarrow> 'a SparseVector \<Rightarrow> 'a SparseVector" where
  "axpy_pivs x coeff pivs y =
     vadd y (vec_of (length pivs) (\<lambda>k. coeff ! k * getval x (pivs ! k)))"

section \<open>Column matrices\<close>

record 'a ColumnMatrix =
  nrow :: nat
  ncol :: nat
  col :: "'a SparseVector list"

definition wf_mat :: "'a::zero ColumnMatrix \<Rightarrow> bool" where
  "wf_mat A \<longleftrightarrow> length (col A) = ncol A \<and> list_all (wf_vec (nrow A)) (col A)"

text \<open>
  Modelled from the spec: \<open>col_matrix.h\<close> is not among the sources.  These are the
  operations of section 4.3: entry access, identity, product, transpose, the
  conjugation that reverses both the row and the column order, swap of two columns
  and row scaling.
\<close>

definition ent :: "'a::zero ColumnMatrix \<Rightarrow> nat \<Rightarrow> nat \<Rightarrow> 'a" where
  "ent A i j = getval (col A ! j) i"

definition identity :: "nat \<Rightarrow> 'a::field ColumnMatrix" where
  "identity k = \<lparr>nrow = k, ncol = k, col = map (\<lambda>j. [(j, 1)]) [0..<k]\<rparr>"

definition lincomb :: "'a::field ColumnMatrix \<Rightarrow> 'a SparseVector \<Rightarrow> 'a SparseVector" where
  "lincomb A v = fold (\<lambda>p acc. vadd acc (vscale (snd p) (col A ! fst p))) v []"

definition mat_mult :: "'a::field ColumnMatrix \<Rightarrow> 'a ColumnMatrix \<Rightarrow> 'a ColumnMatrix" where
  "mat_mult A B = \<lparr>nrow = nrow A, ncol = ncol B, col = map (lincomb A) (col B)\<rparr>"

definition T :: "'a::field ColumnMatrix \<Rightarrow> 'a ColumnMatrix" where
  "T A = \<lparr>nrow = ncol A, ncol = nrow A,
           col = map (\<lambda>i. vec_of (ncol A) (\<lambda>j. ent A i j)) [0..<nrow A]\<rparr>"

definition J_conjugation :: "'a ColumnMatrix \<Rightarrow> 'a ColumnMatrix" where
  "J_conjugation A =
     A\<lparr>col := rev (map (\<lambda>v. rev (map (\<lambda>p. (nrow A - 1 - fst p, snd p)) v)) (col A))\<rparr>"

definition swap_cols :: "nat \<Rightarrow> nat \<Rightarrow> 'a ColumnMatrix \<Rightarrow> 'a ColumnMatrix" where
  "swap_cols j j2 A = A\<lparr>col := (col A)[j := col A ! j2, j2 := col A ! j]\<rparr>"

definition row_scale :: "'a::field list \<Rightarrow> 'a ColumnMatrix \<Rightarrow> 'a ColumnMatrix" where
  "row_scale coeff A =
     A\<lparr>col := map (\<lambda>v. filter (\<lambda>p. snd p \<noteq> 0) (map (\<lambda>p. (fst p, coeff ! fst p * snd p)) v))
                  (col A)\<rparr>"

text \<open>
  Modelled from the spec: the shape predicates of section 3 (\<open>col_matrix.h\<close> is not
  among the sources).  \<open>upper\<close>: every column's stored indices are at most its column
  index; \<open>lower\<close>: the dual; \<open>pivot\<close>: exactly one nonzero entry per row and per
  column, each equal to one; \<open>EL\<close>: among the nonzero columns, the row of the
  lowest-index entry (the pivot) strictly increases with the column index; \<open>EU\<close>: the
  transposed dual of \<open>EL\<close>; \<open>ELhat\<close> and \<open>EUhat\<close>: the row/column-reversed duals of
  \<open>EL\<close> and \<open>EU\<close>.
\<close>

definition is_upper :: "'a ColumnMatrix \<Rightarrow> bool" where
  "is_upper A \<longleftrightarrow> list_all (\<lambda>j. list_all (\<lambda>p. fst p \<le> j) (col A ! j)) [0..<length (col A)]"

definition is_lower :: "'a ColumnMatrix \<Rightarrow> bool" where
  "is_lower A \<longleftrightarrow> list_all (\<lambda>j. list_all (\<lambda>p. j \<le> fst p) (col A ! j)) [0..<length (col A)]"

definition unit_diagonal :: "'a::{zero,one} ColumnMatrix \<Rightarrow> bool" where
  "unit_diagonal A \<longleftrightarrow> nrow A = ncol A \<and> list_all (\<lambda>j. ent A j j = 1) [0..<length (col A)]"

definition is_pivot_matrix :: "'a::{zero,one} ColumnMatrix \<Rightarrow> bool" where
  "is_pivot_matrix A \<longleftrightarrow>
     list_all (\<lambda>v. length v = 1 \<and> snd (hd v) = 1) (col A) \<and>
     list_all (\<lambda>i. length (filter (\<lambda>v. getval v i \<noteq> 0) (col A)) = 1) [0..<nrow A]"

definition is_EL :: "'a ColumnMatrix \<Rightarrow> bool" where
  "is_EL A \<longleftrightarrow> sorted_wrt (<) (map (\<lambda>v. fst (hd v)) (filter (\<lambda>v. v \<noteq> []) (col A)))"

definition is_EU :: "'a::field ColumnMatrix \<Rightarrow> bool" where
  "is_EU A \<longleftrightarrow> is_EL (T A)"

definition is_ELhat :: "'a ColumnMatrix \<Rightarrow> bool" where
  "is_ELhat A \<longleftrightarrow> is_EL (J_conjugation A)"

definition is_EUhat :: "'a::field ColumnMatrix \<Rightarrow> bool" where
  "is_EUhat A \<longleftrightarrow> is_EU (J_conjugation A)"

section \<open>The reduction kernel: \<open>sparse_fact.h\<close>\<close>

text \<open>
  The source has no checked failure of its own; what it can run into is an access past
  the end of a \<open>std::vector\<close> and the inverse of the zero element.  Both are
  results of the model.
\<close>

datatype error = OutOfRange | InverseOfZero

record 'a SparseFact =
  L :: "'a ColumnMatrix"
  E :: "'a ColumnMatrix"
  U :: "'a ColumnMatrix"
  P :: "'a ColumnMatrix"

definition LEUP_prod :: "'a::field SparseFact \<Rightarrow> 'a ColumnMatrix" where
  "LEUP_prod F = mat_mult (mat_mult (mat_mult (L F) (E F)) (U F)) (P F)"

definition PLEU_prod :: "'a::field SparseFact \<Rightarrow> 'a ColumnMatrix" where
  "PLEU_prod F = mat_mult (mat_mult (mat_mult (P F) (L F)) (E F)) (U F)"

definition UELP_prod :: "'a::field SparseFact \<Rightarrow> 'a ColumnMatrix" where
  "UELP_prod F = mat_mult (mat_mult (mat_mult (U F) (E F)) (L F)) (P F)"

definition PUEL_prod :: "'a::field SparseFact \<Rightarrow> 'a ColumnMatrix" where
  "PUEL_prod F = mat_mult (mat_mult (mat_mult (P F) (U F)) (E F)) (L F)"

text \<open>
  The pivot map \<open>std::map<size_t, std::vector<size_t>>\<close>: a key that is present may
  hold an empty vector; \<open>p2c[k]\<close> on an absent key inserts an empty vector.
\<close>

type_synonym pivmap = "nat \<Rightarrow> nat list option"

definition bucket :: "pivmap \<Rightarrow> nat \<Rightarrow> nat list" where
  "bucket p2c k = (case p2c k of None \<Rightarrow> [] | Some b \<Rightarrow> b)"

definition update_pivot :: "'a ColumnMatrix \<Rightarrow> pivmap \<Rightarrow> nat \<Rightarrow> nat \<Rightarrow> pivmap" where
  "update_pivot A p2c j i0 =
     (case lower_bound (col A ! j) i0 of
        None \<Rightarrow> p2c
      | Some piv \<Rightarrow> p2c(fst piv \<mapsto> bucket p2c (fst piv) @ [j]))"

definition delete_pivot :: "'a ColumnMatrix \<Rightarrow> pivmap \<Rightarrow> nat \<Rightarrow> nat \<Rightarrow> pivmap" where
  "delete_pivot A p2c j i0 =
     (case lower_bound (col A ! j) i0 of
        None \<Rightarrow> p2c
      | Some piv \<Rightarrow> p2c(fst piv \<mapsto> remove1 j (bucket p2c (fst piv))))"

definition get_pivots :: "'a ColumnMatrix \<Rightarrow> pivmap" where
  "get_pivots A = fold (\<lambda>j p2c. update_pivot A p2c j 0) [0..<ncol A] Map.empty"

text \<open>Lines 93 to 104 of \<open>LEUP_inplace\<close>: bring the pivot column \<open>j2\<close> to position \<open>j\<close>.\<close>

definition swap_step ::
  "nat \<Rightarrow> nat \<Rightarrow> nat \<Rightarrow> 'a SparseFact \<Rightarrow> pivmap \<Rightarrow> 'a SparseFact \<times> pivmap" where
  "swap_step i j j2 F p2c =
     (let p1 = delete_pivot (E F) p2c j i;
          E1 = swap_cols j j2 (E F);
          p2 = update_pivot E1 p1 j2 i
      in (F\<lparr>E := E1, P := swap_cols j j2 (P F)\<rparr>, p2))"

text \<open>One pass of the loop of lines 118 to 122, for the column \<open>jj\<close> of the bucket.\<close>

definition schur_col ::
  "nat \<Rightarrow> nat \<Rightarrow> nat \<Rightarrow> 'a::field \<Rightarrow> nat \<Rightarrow> 'a ColumnMatrix \<times> pivmap \<Rightarrow> 'a ColumnMatrix \<times> pivmap" where
  "schur_col m i j a11 jj s =
     (let c = ent (fst s) i jj / a11;
          E1 = (fst s)\<lparr>col := (col (fst s))[jj := axpy (- c) (col (fst s) ! j) (Suc i) m (col (fst s) ! jj)]\<rparr>
      in (E1, update_pivot E1 (snd s) jj (Suc i)))"

text \<open>
  Lines 91 to 130: the body of the loop when row \<open>i\<close> has a pivot column, \<open>j2\<close> being
  the first column of its bucket.  The bucket of row \<open>i\<close> is not written to while the
  loop of lines 118 to 122 runs over it (\<open>update_pivot\<close> looks past row \<open>i\<close>), so the
  loop is a fold over the bucket as it stands after the swap.  The result also carries
  the inverse of the pivot value, which the caller appends to \<open>coeff\<close>.
\<close>

definition pivot_step ::
  "nat \<Rightarrow> nat \<Rightarrow> nat \<Rightarrow> nat \<Rightarrow> 'a::field SparseFact \<Rightarrow> pivmap \<Rightarrow> nat list \<Rightarrow> 'a list
     \<Rightarrow> error + ('a SparseFact \<times> pivmap \<times> 'a)" where
  "pivot_step m i j j2 F p2c pivs coeff =
     (let s1 = (if j2 \<noteq> j then swap_step i j j2 F p2c else (F, p2c));
          F1 = fst s1; p1 = snd s1;
          U2 = (U F1)\<lparr>col := (col (U F1))[j := axpy_pivs (col (E F1) ! j) coeff pivs (col (U F1) ! j)]\<rparr>;
          a11 = ent (E F1) i j
      in if a11 = 0 then Inl InverseOfZero
         else
           (let s3 = fold (schur_col m i j a11) (tl (bucket p1 i)) (E F1, p1);
                E3 = fst s3;
                p4 = (snd s3)(i := None);
                L4 = (L F1)\<lparr>col := (col (L F1))[i := axpy (inverse a11) (col E3 ! j) (Suc i) m (col (L F1) ! i)]\<rparr>;
                E4 = E3\<lparr>col := (col E3)[j := [(i, a11)]]\<rparr>
            in Inr (F1\<lparr>L := L4, E := E4, U := U2\<rparr>, p4, inverse a11)))"

text \<open>
  The main loop, lines 86 to 137.  \<open>m\<close> and \<open>n\<close> are read once before the loop, as
  in the source.  \<open>p2c.count(i) > 0\<close> asks whether the key is present; \<open>p2c[i][0]\<close> on
  an empty bucket is an out-of-range read.
\<close>

function LEUP_loop ::
  "nat \<Rightarrow> nat \<Rightarrow> nat \<Rightarrow> nat \<Rightarrow> 'a::field SparseFact \<Rightarrow> pivmap \<Rightarrow> nat list \<Rightarrow> 'a list
     \<Rightarrow> error + ('a SparseFact \<times> nat \<times> nat list \<times> 'a list)" where
  "LEUP_loop m n i j F p2c pivs coeff =
     (if i < m \<and> j < n then
        (case p2c i of
           None \<Rightarrow> LEUP_loop m n (Suc i) j F p2c pivs coeff
         | Some b \<Rightarrow>
             (case b of
                [] \<Rightarrow> Inl OutOfRange
              | j2 # _ \<Rightarrow>
                  (case pivot_step m i j j2 F p2c pivs coeff of
                     Inl e \<Rightarrow> Inl e
                   | Inr r \<Rightarrow>
                       LEUP_loop m n (Suc i) (Suc j) (fst r) (fst (snd r))
                         (pivs @ [i]) (coeff @ [snd (snd r)]))))
      else Inr (F, j, pivs, coeff))"
  by pat_completeness auto
termination
  by (relation "measure (\<lambda>(m, n, i, j, F, p2c, pivs, coeff). m - i)") auto

text \<open>Lines 139 to 145: the columns that were never fixed.\<close>

definition finish_col :: "'a::field list \<Rightarrow> nat list \<Rightarrow> nat \<Rightarrow> 'a SparseFact \<Rightarrow> 'a SparseFact" where
  "finish_col coeff pivs j F =
     F\<lparr>U := (U F)\<lparr>col := (col (U F))[j := axpy_pivs (col (E F) ! j) coeff pivs (col (U F) ! j)]\<rparr>,
       E := (E F)\<lparr>col := (col (E F))[j := []]\<rparr>\<rparr>"

definition LEUP_inplace :: "'a::field SparseFact \<Rightarrow> error + 'a SparseFact" where
  "LEUP_inplace F =
     (let p2c = get_pivots (E F); m = nrow (E F); n = ncol (E F)
      in case LEUP_loop m n 0 0 F p2c [] [] of
           Inl e \<Rightarrow> Inl e
         | Inr r \<Rightarrow>
             (let F2 = fold (finish_col (snd (snd (snd r))) (fst (snd (snd r)))) [fst (snd r)..<n] (fst r)
              in Inr (F2\<lparr>P := T (P F2)\<rparr>)))"

definition LEUP :: "'a::field ColumnMatrix \<Rightarrow> error + 'a SparseFact" where
  "LEUP A = LEUP_inplace
     \<lparr>L = identity (nrow A), E = A, U = identity (ncol A), P = identity (ncol A)\<rparr>"

definition then_fact ::
  "error + 'a SparseFact \<Rightarrow> ('a SparseFact \<Rightarrow> 'a SparseFact) \<Rightarrow> error + 'a SparseFact" where
  "then_fact r f = (case r of Inl e \<Rightarrow> Inl e | Inr F \<Rightarrow> Inr (f F))"

definition PLEU_inplace :: "'a::field SparseFact \<Rightarrow> error + 'a SparseFact" where
  "PLEU_inplace F = then_fact (LEUP_inplace (F\<lparr>E := T (E F)\<rparr>))
     (\<lambda>F. \<lparr>L = T (U F), E = T (E F), U = T (L F), P = T (P F)\<rparr>)"

definition PLEU :: "'a::field ColumnMatrix \<Rightarrow> error + 'a SparseFact" where
  "PLEU A = then_fact (LEUP (T A))
     (\<lambda>F. \<lparr>L = T (U F), E = T (E F), U = T (L F), P = T (P F)\<rparr>)"

definition UELP_inplace :: "'a::field SparseFact \<Rightarrow> error + 'a SparseFact" where
  "UELP_inplace F = then_fact (LEUP_inplace (F\<lparr>E := J_conjugation (E F)\<rparr>))
     (\<lambda>F. \<lparr>L = J_conjugation (U F), E = J_conjugation (E F),
           U = J_conjugation (L F), P = J_conjugation (P F)\<rparr>)"

definition UELP :: "'a::field ColumnMatrix \<Rightarrow> error + 'a SparseFact" where
  "UELP A = then_fact (LEUP (J_conjugation A))
     (\<lambda>F. \<lparr>L = J_conjugation (U F), E = J_conjugation (E F),
           U = J_conjugation (L F), P = J_conjugation (P F)\<rparr>)"

definition PUEL_inplace :: "'a::field SparseFact \<Rightarrow> error + 'a SparseFact" where
  "PUEL_inplace F = then_fact (LEUP_inplace (F\<lparr>E := T (J_conjugation (E F))\<rparr>))
     (\<lambda>F. \<lparr>L = T (J_conjugation (L F)), E = T (J_conjugation (E F)),
           U = T (J_conjugation (U F)), P = T (J_conjugation (P F))\<rparr>)"

definition PUEL :: "'a::field ColumnMatrix \<Rightarrow> error + 'a SparseFact" where
  "PUEL A = then_fact (LEUP (T (J_conjugation A)))
     (\<lambda>F. \<lparr>L = J_conjugation (T (L F)), E = J_conjugation (T (E F)),
           U = J_conjugation (T (U F)), P = J_conjugation (T (P F))\<rparr>)"

section \<open>Commutation: \<open>extract_row_scale\<close>, \<open>EL_L_commute\<close>, \<open>L_EL_commute\<close>\<close>

text \<open>
  \<open>bats::NO_IND\<close>, the value \<open>pivot_ind\<close> returns for a column without entries, is
  not declared in the sources; it is a sentinel that no row index equals, here \<open>None\<close>.
\<close>

definition pivot_ind :: "'a ColumnMatrix \<Rightarrow> nat \<Rightarrow> nat option" where
  "pivot_ind Em j = (case nzbegin (col Em ! j) of None \<Rightarrow> None | Some p \<Rightarrow> Some (fst p))"

definition fill_ones :: "nat \<Rightarrow> nat \<Rightarrow> 'a::one list \<Rightarrow> 'a list" where
  "fill_ones a b cs = fold (\<lambda>k c. c[k := 1]) [a..<b] cs"

text \<open>
  The loop of lines 293 to 311.  The result carries the matrix, the coefficients and
  the row cursor \<open>i\<close>; the \<open>break\<close> of line 300 leaves with \<open>i = m\<close>.  Writing
  \<open>coeff[i]\<close> with \<open>i\<close> at or past \<open>m\<close> is an out-of-range access.
\<close>

function extract_row_scale_loop ::
  "nat \<Rightarrow> nat \<Rightarrow> nat \<Rightarrow> nat \<Rightarrow> 'a::field ColumnMatrix \<Rightarrow> 'a list
     \<Rightarrow> error + ('a ColumnMatrix \<times> 'a list \<times> nat)" where
  "extract_row_scale_loop m n i j Em cs =
     (if i < m \<and> j < n then
        (case nzbegin (col Em ! j) of
           None \<Rightarrow> Inr (Em, fill_ones i m cs, m)
         | Some p \<Rightarrow>
             (let i' = max i (fst p)
              in if m \<le> i' then Inl OutOfRange
                 else extract_row_scale_loop m n (Suc i') (Suc j)
                        (Em\<lparr>col := (col Em)[j := (fst p, 1) # tl (col Em ! j)]\<rparr>)
                        ((fill_ones i (fst p) cs)[i' := snd p])))
      else Inr (Em, cs, i))"
  by pat_completeness auto
termination
  by (relation "measure (\<lambda>(m, n, i, j, Em, cs). m - i)") auto

definition extract_row_scale ::
  "'a::field ColumnMatrix \<Rightarrow> error + ('a ColumnMatrix \<times> 'a list)" where
  "extract_row_scale Em =
     (case extract_row_scale_loop (nrow Em) (ncol Em) 0 0 Em (replicate (nrow Em) 0) of
        Inl e \<Rightarrow> Inl e
      | Inr r \<Rightarrow> Inr (fst r, fill_ones (snd (snd r)) (nrow Em) (fst (snd r))))"

text \<open>
  The inner loop of line 348: the entries of a column of \<open>L\<close>, rewritten through
  \<open>idx_map\<close>, up to the first entry whose row has no pivot.
\<close>

fun map_entries :: "nat option list \<Rightarrow> 'a SparseVector \<Rightarrow> error + 'a SparseVector" where
  "map_entries idx_map [] = Inr []"
| "map_entries idx_map (p # rest) =
     (if length idx_map \<le> fst p then Inl OutOfRange
      else (case idx_map ! fst p of
              None \<Rightarrow> Inr []
            | Some r \<Rightarrow>
                (case map_entries idx_map rest of
                   Inl e \<Rightarrow> Inl e
                 | Inr v \<Rightarrow> Inr ((r, snd p) # v))))"

text \<open>The loop of lines 344 to 351 over the columns \<open>ell\<close> of \<open>EL\<close>.\<close>

fun commute_cols ::
  "nat option list \<Rightarrow> 'a ColumnMatrix \<Rightarrow> nat list \<Rightarrow> 'a ColumnMatrix \<Rightarrow> error + 'a ColumnMatrix" where
  "commute_cols idx_map Lm [] Ltilde = Inr Ltilde"
| "commute_cols idx_map Lm (ell # ells) Ltilde =
     (case idx_map ! ell of
        None \<Rightarrow> Inr Ltilde
      | Some j_ell \<Rightarrow>
          if length (col Ltilde) \<le> j_ell \<or> length (col Lm) \<le> ell then Inl OutOfRange
          else (case map_entries idx_map (col Lm ! ell) of
                  Inl e \<Rightarrow> Inl e
                | Inr v \<Rightarrow>
                    commute_cols idx_map Lm ells (Ltilde\<lparr>col := (col Ltilde)[j_ell := v]\<rparr>)))"

definition EL_L_commute ::
  "'a::field ColumnMatrix \<Rightarrow> 'a ColumnMatrix \<Rightarrow> error + 'a ColumnMatrix" where
  "EL_L_commute Em Lm =
     (case extract_row_scale Em of
        Inl e \<Rightarrow> Inl e
      | Inr r \<Rightarrow>
          (let EL = fst r; m = nrow EL; n = ncol EL;
               idx_map = map (pivot_ind EL) [0..<n]
           in case commute_cols idx_map Lm [0..<n] (identity m) of
                Inl e \<Rightarrow> Inl e
              | Inr Ltilde \<Rightarrow> Inr (row_scale (snd r) Ltilde)))"

definition L_EL_commute ::
  "'a::field ColumnMatrix \<Rightarrow> 'a ColumnMatrix \<Rightarrow> error + 'a ColumnMatrix" where
  "L_EL_commute Lm EL =
     (case EL_L_commute (J_conjugation (T EL)) (J_conjugation (T Lm)) of
        Inl e \<Rightarrow> Inl e
      | Inr M \<Rightarrow> Inr (J_conjugation (T M)))"

section \<open>Dense matrices\<close>

text \<open>
  Modelled from the spec: \<open>naive_dense.h\<close>, which declares the dense matrix and its
  \<open>matmul\<close>, is not among the sources.  A dense matrix is its row count, its column
  count and its entries row by row, as the test of \<open>dense_tests.cpp\<close> writes them;
  the product is the textbook one.
\<close>

record 'a Dense =
  d_rows :: nat
  d_cols :: nat
  d_mem :: "'a list"

definition d_ent :: "'a Dense \<Rightarrow> nat \<Rightarrow> nat \<Rightarrow> 'a" where
  "d_ent A i j = d_mem A ! (i * d_cols A + j)"

definition matmul :: "'a::semiring_0 Dense \<Rightarrow> 'a Dense \<Rightarrow> 'a Dense" where
  "matmul A B =
     \<lparr>d_rows = d_rows A, d_cols = d_cols B,
      d_mem = concat (map (\<lambda>i. map (\<lambda>j. sum_list (map (\<lambda>k. d_ent A i k * d_ent B k j) [0..<d_cols A]))
                                  [0..<d_cols B])
                         [0..<d_rows A])\<rparr>"

section \<open>Invariants used in the proofs\<close>

text \<open>
  The row of the first stored entry of a column at or below row \<open>i\<close>: the key under which
  \<open>update_pivot\<close> files the column.
\<close>

definition piv_row :: "'a SparseVector \<Rightarrow> nat \<Rightarrow> nat option" where
  "piv_row v i = map_option fst (lower_bound v i)"

text \<open>
  The pivot map at the head of the main loop, with row cursor \<open>i\<close> and column cursor
  \<open>j\<close>: no bucket is empty, no bucket repeats a column, and the bucket of row \<open>r\<close> holds
  exactly the columns from \<open>j\<close> on whose first entry at or below row \<open>i\<close> lies in row \<open>r\<close>.
\<close>

definition pm_inv :: "'a ColumnMatrix \<Rightarrow> pivmap \<Rightarrow> nat \<Rightarrow> nat \<Rightarrow> bool" where
  "pm_inv Em p2c i j \<longleftrightarrow>
     (\<forall>r. p2c r \<noteq> Some [] \<and> distinct (bucket p2c r) \<and>
          set (bucket p2c r) = {c. j \<le> c \<and> c < ncol Em \<and> piv_row (col Em ! c) i = Some r})"

text \<open>
  The pivot map after the swap: column \<open>j\<close> has its pivot in row \<open>i\<close>, and the rest of the
  bucket of row \<open>i\<close> and all other buckets describe the columns after \<open>j\<close>.
\<close>

definition pm_mid :: "'a ColumnMatrix \<Rightarrow> pivmap \<Rightarrow> nat \<Rightarrow> nat \<Rightarrow> bool" where
  "pm_mid Em p2c i j \<longleftrightarrow>
     piv_row (col Em ! j) i = Some i \<and>
     distinct (tl (bucket p2c i)) \<and>
     set (tl (bucket p2c i)) = {c. j < c \<and> c < ncol Em \<and> piv_row (col Em ! c) i = Some i} \<and>
     (\<forall>r. r \<noteq> i \<longrightarrow> p2c r \<noteq> Some [] \<and> distinct (bucket p2c r) \<and>
          set (bucket p2c r) = {c. j < c \<and> c < ncol Em \<and> piv_row (col Em ! c) i = Some r})"

text \<open>
  The row index of the first entry of each column: for a permutation matrix, the
  permutation it stands for.
\<close>

definition perm_of :: "'a ColumnMatrix \<Rightarrow> nat list" where
  "perm_of Pm = map (\<lambda>v. fst (hd v)) (col Pm)"

text \<open>
  A permutation matrix of size \<open>n\<close>, column by column.
\<close>

definition perm_cols :: "nat \<Rightarrow> 'a::one ColumnMatrix \<Rightarrow> bool" where
  "perm_cols n Pm \<longleftrightarrow>
     nrow Pm = n \<and> ncol Pm = n \<and> col Pm = map (\<lambda>s. [(s, 1)]) (perm_of Pm) \<and>
     distinct (perm_of Pm) \<and> set (perm_of Pm) = {..<n}"

text \<open>
  The columns of \<open>E\<close> that are already fixed: column \<open>k\<close> holds the single entry that is
  the \<open>k\<close>-th pivot, in row \<open>pivs[k]\<close>, with value the inverse of \<open>coeff[k]\<close>.
\<close>

definition fixed_cols :: "'a::field ColumnMatrix \<Rightarrow> nat list \<Rightarrow> 'a list \<Rightarrow> bool" where
  "fixed_cols Em pivs coeff \<longleftrightarrow>
     (\<forall>k<length pivs. col Em ! k = [(pivs ! k, inverse (coeff ! k))] \<and> coeff ! k \<noteq> 0)"

text \<open>
  What the eliminations recorded so far contribute to the entry \<open>(r, c)\<close> of \<open>L \<cdot> E\<close>.
\<close>

definition hist :: "'a::field ColumnMatrix \<Rightarrow> 'a ColumnMatrix \<Rightarrow> nat list \<Rightarrow> nat \<Rightarrow> nat \<Rightarrow> 'a" where
  "hist Lm Em pivs r c = (\<Sum>k<length pivs. ent Em (pivs ! k) c * ent Lm r (pivs ! k))"

text \<open>
  Sizes and well-formedness of the four matrices of the bundle while \<open>A\<close> is factored.
\<close>

definition shape_inv :: "'a::field ColumnMatrix \<Rightarrow> 'a SparseFact \<Rightarrow> bool" where
  "shape_inv A F \<longleftrightarrow>
     wf_mat A \<and> wf_mat (E F) \<and> nrow (E F) = nrow A \<and> ncol (E F) = ncol A \<and>
     wf_mat (L F) \<and> nrow (L F) = nrow A \<and> ncol (L F) = nrow A \<and>
     wf_mat (U F) \<and> nrow (U F) = ncol A \<and> ncol (U F) = ncol A \<and>
     perm_cols (ncol A) (P F)"

text \<open>
  The bookkeeping of the main loop: one recorded pivot per fixed column, pivot rows
  increasing and above the row cursor, the columns of \<open>U\<close> not yet fixed and the columns of
  \<open>L\<close> of rows without a pivot still those of the identity, and no entry of a column not
  yet fixed above the row cursor in a row without a pivot.
\<close>

definition piv_inv ::
  "'a::field ColumnMatrix \<Rightarrow> nat \<Rightarrow> nat \<Rightarrow> 'a SparseFact \<Rightarrow> nat list \<Rightarrow> 'a list \<Rightarrow> bool" where
  "piv_inv A i j F pivs coeff \<longleftrightarrow>
     length pivs = j \<and> length coeff = j \<and> j \<le> ncol A \<and> i \<le> nrow A \<and>
     sorted_wrt (<) pivs \<and> (\<forall>r\<in>set pivs. r < i) \<and>
     fixed_cols (E F) pivs coeff \<and>
     (\<forall>c. j \<le> c \<and> c < ncol A \<longrightarrow> col (U F) ! c = [(c, 1)]) \<and>
     (\<forall>c r. j \<le> c \<and> c < ncol A \<and> r < i \<and> ent (E F) r c \<noteq> 0 \<longrightarrow> r \<in> set pivs) \<and>
     (\<forall>r<nrow A. r \<notin> set pivs \<longrightarrow> col (L F) ! r = [(r, 1)])"

text \<open>
  The triangular shapes of \<open>L\<close> and \<open>U\<close>.
\<close>

definition tri_inv :: "'a::field SparseFact \<Rightarrow> bool" where
  "tri_inv F \<longleftrightarrow> is_lower (L F) \<and> unit_diagonal (L F) \<and> is_upper (U F) \<and> unit_diagonal (U F)"

text \<open>
  The reconstruction invariant: every column of \<open>A\<close>, looked up through the permutation,
  is recovered from \<open>L\<close>, \<open>E\<close> and the recorded eliminations (a column not yet fixed), or
  from \<open>L\<close>, \<open>U\<close> and the recorded pivots (a fixed column).
\<close>

definition rec_inv ::
  "'a::field ColumnMatrix \<Rightarrow> nat \<Rightarrow> nat \<Rightarrow> 'a SparseFact \<Rightarrow> nat list \<Rightarrow> 'a list \<Rightarrow> bool" where
  "rec_inv A i j F pivs coeff \<longleftrightarrow>
     (\<forall>c r. j \<le> c \<and> c < ncol A \<and> r < nrow A \<longrightarrow>
        ent A r (perm_of (P F) ! c) =
          hist (L F) (E F) pivs r c + (if i \<le> r then ent (E F) r c else 0)) \<and>
     (\<forall>c r. c < j \<and> r < nrow A \<longrightarrow>
        ent A r (perm_of (P F) ! c) =
          (\<Sum>k<j. ent (U F) k c * inverse (coeff ! k) * ent (L F) r (pivs ! k)))"

text \<open>
  The invariant of the main loop of \<open>LEUP_inplace\<close>.
\<close>

definition leup_inv ::
  "'a::field ColumnMatrix \<Rightarrow> nat \<Rightarrow> nat \<Rightarrow> 'a SparseFact \<Rightarrow> nat list \<Rightarrow> 'a list \<Rightarrow> bool" where
  "leup_inv A i j F pivs coeff \<longleftrightarrow>
     shape_inv A F \<and> piv_inv A i j F pivs coeff \<and> tri_inv F \<and> rec_inv A i j F pivs coeff"

text \<open>
  A bundle whose \<open>L\<close> is lower triangular with unit diagonal of size \<open>m\<close>, whose \<open>U\<close> is upper
  triangular with unit diagonal of size \<open>n\<close>, whose \<open>E\<close> has \<open>m\<close> rows and \<open>n\<close> columns and whose
  \<open>P\<close> is a permutation matrix of size \<open>k\<close>, all well formed.
\<close>

definition good_fact :: "nat \<Rightarrow> nat \<Rightarrow> nat \<Rightarrow> 'a::field SparseFact \<Rightarrow> bool" where
  "good_fact m n k F \<longleftrightarrow>
     wf_mat (L F) \<and> nrow (L F) = m \<and> ncol (L F) = m \<and> is_lower (L F) \<and> unit_diagonal (L F) \<and>
     wf_mat (U F) \<and> nrow (U F) = n \<and> ncol (U F) = n \<and> is_upper (U F) \<and> unit_diagonal (U F) \<and>
     wf_mat (E F) \<and> nrow (E F) = m \<and> ncol (E F) = n \<and> perm_cols k (P F)"

text \<open>
  The bundle of four identity matrices.
\<close>

definition id_fact :: "nat \<Rightarrow> 'a::field SparseFact" where
  "id_fact n = \<lparr>L = identity n, E = identity n, U = identity n, P = identity n\<rparr>"

text \<open>
  The pivot map of the identity matrix from row \<open>i\<close> on.
\<close>

definition id_piv :: "nat \<Rightarrow> nat \<Rightarrow> pivmap" where
  "id_piv n i = (\<lambda>r. if i \<le> r \<and> r < n then Some [r] else None)"

text \<open>
  A column with its first entry set to one.
\<close>

definition normal_col :: "'a::one SparseVector \<Rightarrow> 'a SparseVector" where
  "normal_col v = (case v of [] \<Rightarrow> [] | p # t \<Rightarrow> (fst p, 1) # t)"

text \<open>
  The shape of the \<open>E\<close> that \<open>LEUP\<close> returns: \<open>EL\<close>, every column holds at most one entry,
  and the nonzero columns come before the zero columns.
\<close>

definition is_EL_reduced :: "'a ColumnMatrix \<Rightarrow> bool" where
  "is_EL_reduced A \<longleftrightarrow>
     is_EL A \<and> list_all (\<lambda>v. length v \<le> 1) (col A) \<and>
     filter (\<lambda>v. v \<noteq> []) (col A) = takeWhile (\<lambda>v. v \<noteq> []) (col A)"

section \<open>Lemmas\<close>

subsection \<open>Sparse vectors\<close>

lemma wf_vec_Nil [simp]: "wf_vec m []"
  by (simp add: wf_vec_def)

lemma wf_vec_Cons:
  "wf_vec m (p # v) \<longleftrightarrow> fst p < m \<and> snd p \<noteq> 0 \<and> (\<forall>q\<in>set v. fst p < fst q) \<and> wf_vec m v"
  by (auto simp: wf_vec_def)

lemma wf_vec_mono: "wf_vec m v \<Longrightarrow> m \<le> m' \<Longrightarrow> wf_vec m' v"
  by (auto simp: wf_vec_def list_all_iff)

lemma wf_vec_bound: "wf_vec m v \<Longrightarrow> p \<in> set v \<Longrightarrow> fst p < m"
  by (auto simp: wf_vec_def list_all_iff)

lemma wf_vec_nz: "wf_vec m v \<Longrightarrow> p \<in> set v \<Longrightarrow> snd p \<noteq> 0"
  by (auto simp: wf_vec_def list_all_iff)

lemma wf_vec_distinct: "wf_vec m v \<Longrightarrow> distinct (map fst v)"
  by (induction v) (auto simp: wf_vec_Cons)

lemma getval_Nil [simp]: "getval [] i = 0"
  by (simp add: getval_def)

lemma getval_Cons: "getval (p # v) i = (if i = fst p then snd p else getval v i)"
  by (cases p) (simp add: getval_def)

lemma getval_notin: "i \<notin> fst ` set v \<Longrightarrow> getval v i = 0"
  by (induction v) (auto simp: getval_Cons)

lemma getval_in: "wf_vec m v \<Longrightarrow> p \<in> set v \<Longrightarrow> getval v (fst p) = snd p"
  by (induction v) (auto simp: getval_Cons wf_vec_Cons)

lemma getval_nz_iff: "wf_vec m v \<Longrightarrow> getval v i \<noteq> 0 \<longleftrightarrow> i \<in> fst ` set v"
  by (induction v) (auto simp: getval_Cons wf_vec_Cons)

lemma getval_ge: "wf_vec m v \<Longrightarrow> m \<le> i \<Longrightarrow> getval v i = 0"
  by (rule getval_notin) (auto dest: wf_vec_bound)

lemma getval_mem: "wf_vec m v \<Longrightarrow> getval v i \<noteq> 0 \<Longrightarrow> (i, getval v i) \<in> set v"
  by (induction v) (auto simp: getval_Cons wf_vec_Cons split: if_splits)

lemma vec_ext:
  "wf_vec m v \<Longrightarrow> wf_vec m w \<Longrightarrow> (\<And>i. i < m \<Longrightarrow> getval v i = getval w i) \<Longrightarrow> v = w"
proof (induction v arbitrary: w)
  case Nil
  show ?case
  proof (cases w)
    case (Cons q w')
    with Nil.prems have "getval w (fst q) \<noteq> 0" "fst q < m"
      by (auto simp: getval_Cons wf_vec_Cons)
    with Nil.prems(3)[of "fst q"] show ?thesis by simp
  qed simp
next
  case (Cons p v)
  have pm: "fst p < m" "snd p \<noteq> 0" and pv: "\<forall>q\<in>set v. fst p < fst q" and wv: "wf_vec m v"
    using Cons.prems(1) by (auto simp: wf_vec_Cons)
  show ?case
  proof (cases w)
    case Nil
    with Cons.prems(3)[of "fst p"] pm show ?thesis by (simp add: getval_Cons)
  next
    case (Cons q w')
    have qm: "fst q < m" "snd q \<noteq> 0" and qw: "\<forall>r\<in>set w'. fst q < fst r" and ww: "wf_vec m w'"
      using Cons.prems(2) Cons by (auto simp: wf_vec_Cons)
    have eq: "\<And>i. i < m \<Longrightarrow> getval (p # v) i = getval (q # w') i"
      using Cons.prems(3) Cons by simp
    have "fst p = fst q"
    proof (rule ccontr)
      assume ne: "fst p \<noteq> fst q"
      show False
      proof (cases "fst p < fst q")
        case True
        then have "getval (q # w') (fst p) = 0"
          using qw by (intro getval_notin) force
        with eq[of "fst p"] pm show False by (simp add: getval_Cons)
      next
        case False
        with ne have "fst q < fst p" by simp
        then have "getval (p # v) (fst q) = 0"
          using pv by (intro getval_notin) force
        with eq[of "fst q"] qm show False by (simp add: getval_Cons)
      qed
    qed
    moreover from this eq[of "fst p"] pm have "snd p = snd q" by (simp add: getval_Cons)
    ultimately have "p = q" by (simp add: prod_eq_iff)
    have "v = w'"
    proof (rule Cons.IH[OF wv ww])
      fix i assume "i < m"
      show "getval v i = getval w' i"
      proof (cases "i = fst p")
        case True
        have "getval v i = 0" using pv True by (intro getval_notin) force
        moreover have "getval w' i = 0" using qw True \<open>fst p = fst q\<close> by (intro getval_notin) force
        ultimately show ?thesis by simp
      next
        case False
        with eq[OF \<open>i < m\<close>] \<open>p = q\<close> show ?thesis by (simp add: getval_Cons)
      qed
    qed
    with \<open>p = q\<close> Cons show ?thesis by simp
  qed
qed

lemma vadd_fst: "q \<in> set (vadd xs ys) \<Longrightarrow> fst q \<in> fst ` set xs \<union> fst ` set ys"
  by (induction xs ys rule: vadd.induct) (force split: if_splits)+

lemma vadd_ball:
  assumes "\<forall>q\<in>set xs. Q (fst q)" "\<forall>q\<in>set ys. Q (fst q)" "q \<in> set (vadd xs ys)"
  shows "Q (fst q)"
  using vadd_fst[OF assms(3)] assms(1,2) by auto

lemma wf_vadd: "wf_vec m xs \<Longrightarrow> wf_vec m ys \<Longrightarrow> wf_vec m (vadd xs ys)"
proof (induction xs ys rule: vadd.induct)
  case (3 i a xs j b ys)
  have xs: "i < m" "a \<noteq> 0" "\<forall>q\<in>set xs. i < fst q" "wf_vec m xs"
    using "3.prems"(1) by (auto simp: wf_vec_Cons)
  have ys: "j < m" "b \<noteq> 0" "\<forall>q\<in>set ys. j < fst q" "wf_vec m ys"
    using "3.prems"(2) by (auto simp: wf_vec_Cons)
  consider (lt) "i < j" | (gt) "j < i" | (eq0) "i = j" "a + b = 0" | (eq1) "i = j" "a + b \<noteq> 0"
    by linarith
  then show ?case
  proof cases
    case lt
    have "wf_vec m (vadd xs ((j, b) # ys))" using "3.IH"(1)[OF lt xs(4) "3.prems"(2)] .
    moreover have "\<forall>q\<in>set (vadd xs ((j, b) # ys)). i < fst q"
    proof
      fix q assume "q \<in> set (vadd xs ((j, b) # ys))"
      then show "i < fst q"
        using xs ys lt by (intro vadd_ball[where Q = "\<lambda>t. i < t" and xs = xs and ys = "(j, b) # ys"]) auto
    qed
    ultimately show ?thesis using lt xs by (simp add: wf_vec_Cons)
  next
    case gt
    then have nlt: "\<not> i < j" by simp
    have "wf_vec m (vadd ((i, a) # xs) ys)" using "3.IH"(2)[OF nlt gt "3.prems"(1) ys(4)] .
    moreover have "\<forall>q\<in>set (vadd ((i, a) # xs) ys). j < fst q"
    proof
      fix q assume "q \<in> set (vadd ((i, a) # xs) ys)"
      then show "j < fst q"
        using xs ys gt by (intro vadd_ball[where Q = "\<lambda>t. j < t" and xs = "(i, a) # xs" and ys = ys]) auto
    qed
    ultimately show ?thesis using gt nlt ys by (simp add: wf_vec_Cons)
  next
    case eq0
    then show ?thesis using "3.IH"(3)[OF _ _ _ xs(4) ys(4)] by simp
  next
    case eq1
    have "wf_vec m (vadd xs ys)" using "3.IH"(4)[OF _ _ _ xs(4) ys(4)] eq1 by simp
    moreover have "\<forall>q\<in>set (vadd xs ys). i < fst q"
    proof
      fix q assume "q \<in> set (vadd xs ys)"
      then show "i < fst q"
        using xs ys eq1 by (intro vadd_ball[where Q = "\<lambda>t. i < t" and xs = xs and ys = ys]) auto
    qed
    ultimately show ?thesis using eq1 xs by (simp add: wf_vec_Cons)
  qed
qed (auto)

lemma getval_vadd:
  "wf_vec m xs \<Longrightarrow> wf_vec m ys \<Longrightarrow> getval (vadd xs ys) i = getval xs i + getval ys i"
proof (induction xs ys rule: vadd.induct)
  case (3 k a xs j b ys)
  have xs: "\<forall>q\<in>set xs. k < fst q" "wf_vec m xs"
    using "3.prems"(1) by (auto simp: wf_vec_Cons)
  have ys: "\<forall>q\<in>set ys. j < fst q" "wf_vec m ys"
    using "3.prems"(2) by (auto simp: wf_vec_Cons)
  have zx: "\<And>t. t \<le> k \<Longrightarrow> getval xs t = 0"
    using xs(1) by (intro getval_notin) force
  have zy: "\<And>t. t \<le> j \<Longrightarrow> getval ys t = 0"
    using ys(1) by (intro getval_notin) force
  consider (lt) "k < j" | (gt) "j < k" | (eq0) "k = j" "a + b = 0" | (eq1) "k = j" "a + b \<noteq> 0"
    by linarith
  then show ?case
  proof cases
    case lt
    from "3.IH"(1)[OF lt xs(2) "3.prems"(2)] lt zy[of k] show ?thesis
      by (simp add: getval_Cons)
  next
    case gt
    then have nlt: "\<not> k < j" by simp
    from "3.IH"(2)[OF nlt gt "3.prems"(1) ys(2)] gt nlt zx[of j] show ?thesis
      by (simp add: getval_Cons)
  next
    case eq0
    from "3.IH"(3)[OF _ _ _ xs(2) ys(2)] eq0 zx[of k] zy[of j] show ?thesis
      by (simp add: getval_Cons)
  next
    case eq1
    have "getval (vadd xs ys) i = getval xs i + getval ys i"
      using "3.IH"(4)[OF _ _ _ xs(2) ys(2)] eq1 by simp
    with eq1 zx[of k] zy[of j] show ?thesis
      by (simp add: getval_Cons)
  qed
qed (auto)

lemma wf_vscale: "wf_vec m v \<Longrightarrow> wf_vec m (vscale c v)"
  by (induction v) (auto simp: vscale_def wf_vec_Cons)

lemma getval_vscale: "wf_vec m v \<Longrightarrow> getval (vscale c v) i = c * getval v i"
proof (induction v)
  case (Cons p v)
  then have "i = fst p \<Longrightarrow> getval (vscale c v) i = 0"
    by (intro getval_notin) (auto simp: vscale_def wf_vec_Cons)
  with Cons show ?case
    by (auto simp: vscale_def wf_vec_Cons getval_Cons)
qed (simp add: vscale_def)

lemma wf_vrange: "wf_vec m v \<Longrightarrow> wf_vec m (vrange lo hi v)"
  by (induction v) (auto simp: vrange_def wf_vec_Cons)

lemma getval_vrange:
  "getval (vrange lo hi v) i = (if lo \<le> i \<and> i < hi then getval v i else 0)"
  by (induction v) (auto simp: vrange_def getval_Cons)

lemma wf_axpy: "wf_vec m x \<Longrightarrow> wf_vec m y \<Longrightarrow> wf_vec m (axpy a x lo hi y)"
  by (simp add: axpy_def wf_vadd wf_vscale wf_vrange)

lemma getval_axpy:
  "wf_vec m x \<Longrightarrow> wf_vec m y \<Longrightarrow>
   getval (axpy a x lo hi y) i = getval y i + (if lo \<le> i \<and> i < hi then a * getval x i else 0)"
  by (simp add: axpy_def getval_vadd[where m = m] wf_vscale wf_vrange getval_vscale[where m = m] getval_vrange)

lemma vec_of_Suc: "vec_of (Suc k) f = vec_of k f @ (if f k = 0 then [] else [(k, f k)])"
  by (simp add: vec_of_def)

lemma set_vec_of: "set (vec_of k f) = {(i, f i) |i. i < k \<and> f i \<noteq> 0}"
  by (auto simp: vec_of_def)

lemma wf_vec_of: "k \<le> m \<Longrightarrow> wf_vec m (vec_of k f)"
  by (auto simp: wf_vec_def vec_of_def list_all_iff sorted_wrt_filter sorted_wrt_map
      intro!: sorted_wrt_filter)

lemma getval_vec_of: "getval (vec_of k f) i = (if i < k then f i else 0)"
proof (cases "i < k \<and> f i \<noteq> 0")
  case True
  then have "(i, f i) \<in> set (vec_of k f)" by (auto simp: set_vec_of)
  from getval_in[OF wf_vec_of[OF order_refl] this] True show ?thesis by simp
next
  case False
  then have "i \<notin> fst ` set (vec_of k f)" by (auto simp: set_vec_of)
  with False show ?thesis by (auto simp: getval_notin)
qed

lemma wf_axpy_pivs:
  "wf_vec m y \<Longrightarrow> length ps \<le> m \<Longrightarrow> wf_vec m (axpy_pivs x cs ps y)"
  by (simp add: axpy_pivs_def wf_vadd wf_vec_of)

lemma getval_axpy_pivs:
  "wf_vec m y \<Longrightarrow> length ps \<le> m \<Longrightarrow>
   getval (axpy_pivs x cs ps y) k =
     getval y k + (if k < length ps then cs ! k * getval x (ps ! k) else 0)"
  by (simp add: axpy_pivs_def getval_vadd[where m = m] wf_vec_of getval_vec_of)

subsection \<open>Column matrices\<close>

lemma wf_matD: "wf_mat A \<Longrightarrow> j < ncol A \<Longrightarrow> wf_vec (nrow A) (col A ! j)"
  by (simp add: wf_mat_def list_all_length)

lemma wf_mat_len: "wf_mat A \<Longrightarrow> length (col A) = ncol A"
  by (simp add: wf_mat_def)

lemma wf_matI:
  "length (col A) = ncol A \<Longrightarrow> (\<And>j. j < ncol A \<Longrightarrow> wf_vec (nrow A) (col A ! j)) \<Longrightarrow> wf_mat A"
  by (simp add: wf_mat_def list_all_length)

lemma ent_ge: "wf_mat A \<Longrightarrow> j < ncol A \<Longrightarrow> nrow A \<le> i \<Longrightarrow> ent A i j = 0"
  unfolding ent_def by (rule getval_ge[OF wf_matD])

lemma mat_ext:
  assumes "wf_mat A" "wf_mat B" "nrow A = nrow B" "ncol A = ncol B"
    and "\<And>i j. i < nrow A \<Longrightarrow> j < ncol A \<Longrightarrow> ent A i j = ent B i j"
  shows "A = B"
proof -
  have "col A = col B"
  proof (rule nth_equalityI)
    show "length (col A) = length (col B)"
      using assms(1,2,4) by (simp add: wf_mat_len)
    fix j assume "j < length (col A)"
    then have j: "j < ncol A" using assms(1) by (simp add: wf_mat_len)
    show "col A ! j = col B ! j"
    proof (rule vec_ext)
      show "wf_vec (nrow A) (col A ! j)" using assms(1) j by (rule wf_matD)
      show "wf_vec (nrow A) (col B ! j)" using wf_matD[OF assms(2)] j assms(3,4) by simp
      fix i assume "i < nrow A"
      then show "getval (col A ! j) i = getval (col B ! j) i"
        using assms(5)[OF _ j] by (simp add: ent_def)
    qed
  qed
  with assms(3,4) show ?thesis by simp
qed

lemma nrow_identity [simp]: "nrow (identity k) = k"
  and ncol_identity [simp]: "ncol (identity k) = k"
  and length_col_identity [simp]: "length (col (identity k)) = k"
  by (simp_all add: identity_def)

lemma col_identity [simp]: "j < k \<Longrightarrow> col (identity k) ! j = [(j, 1)]"
  by (simp add: identity_def)

lemma wf_identity [simp]: "wf_mat (identity k)"
  by (rule wf_matI) (simp_all add: wf_vec_Cons)

lemma ent_identity: "j < k \<Longrightarrow> ent (identity k) i j = (if i = j then 1 else 0)"
  by (simp add: ent_def getval_Cons)

lemma sum_list_sparse:
  assumes "wf_vec n v" "\<And>k. f k 0 = (0::'b::comm_monoid_add)"
  shows "(\<Sum>p\<leftarrow>v. f (fst p) (snd p)) = (\<Sum>k<n. f k (getval v k))"
  using assms(1)
proof (induction v)
  case Nil
  then show ?case by (simp add: assms(2))
next
  case (Cons p v)
  have pm: "fst p < n" and pv: "\<forall>q\<in>set v. fst p < fst q" and wv: "wf_vec n v"
    using Cons.prems by (auto simp: wf_vec_Cons)
  have z: "getval v (fst p) = 0" using pv by (intro getval_notin) force
  have "(\<Sum>k<n. f k (getval (p # v) k)) =
        f (fst p) (snd p) + (\<Sum>k\<in>{..<n} - {fst p}. f k (getval (p # v) k))"
    using pm by (subst sum.remove[of _ "fst p"]) (simp_all add: getval_Cons)
  also have "(\<Sum>k\<in>{..<n} - {fst p}. f k (getval (p # v) k)) =
             (\<Sum>k\<in>{..<n} - {fst p}. f k (getval v k))"
    by (rule sum.cong) (simp_all add: getval_Cons)
  also have "\<dots> = (\<Sum>k<n. f k (getval v k))"
    using pm z by (subst (2) sum.remove[of _ "fst p"]) (simp_all add: assms(2))
  finally show ?case using Cons.IH[OF wv] by simp
qed

lemma lincomb_fold:
  assumes "wf_vec m acc" "\<forall>p\<in>set v. wf_vec m (col A ! fst p)"
  shows "wf_vec m (fold (\<lambda>p acc. vadd acc (vscale (snd p) (col A ! fst p))) v acc) \<and>
         getval (fold (\<lambda>p acc. vadd acc (vscale (snd p) (col A ! fst p))) v acc) i =
           getval acc i + (\<Sum>p\<leftarrow>v. snd p * getval (col A ! fst p) i)"
  using assms
proof (induction v arbitrary: acc)
  case Nil
  then show ?case by simp
next
  case (Cons p v)
  have w1: "wf_vec m (col A ! fst p)" using Cons.prems(2) by simp
  have w2: "wf_vec m (vadd acc (vscale (snd p) (col A ! fst p)))"
    using Cons.prems(1) w1 by (simp add: wf_vadd wf_vscale)
  have g: "getval (vadd acc (vscale (snd p) (col A ! fst p))) i =
           getval acc i + snd p * getval (col A ! fst p) i"
    using Cons.prems(1) w1 by (simp add: getval_vadd[where m = m] wf_vscale getval_vscale[where m = m])
  from Cons.IH[OF w2] Cons.prems(2) g show ?case by (simp add: add.assoc)
qed

lemma nrow_mat_mult [simp]: "nrow (mat_mult A B) = nrow A"
  and ncol_mat_mult [simp]: "ncol (mat_mult A B) = ncol B"
  and length_col_mat_mult [simp]: "length (col (mat_mult A B)) = length (col B)"
  by (simp_all add: mat_mult_def)

lemma wf_mat_mult:
  assumes "wf_mat A" "wf_mat B" "ncol A = nrow B"
  shows "wf_mat (mat_mult A B)"
proof (rule wf_matI)
  show "length (col (mat_mult A B)) = ncol (mat_mult A B)"
    using assms(2) by (simp add: wf_mat_len)
  fix j assume "j < ncol (mat_mult A B)"
  then have j: "j < ncol B" by simp
  have "\<forall>p\<in>set (col B ! j). wf_vec (nrow A) (col A ! fst p)"
    using wf_vec_bound[OF wf_matD[OF assms(2) j]] assms(1,3) by (auto intro: wf_matD)
  from lincomb_fold[OF wf_vec_Nil this] j assms(2)
  show "wf_vec (nrow (mat_mult A B)) (col (mat_mult A B) ! j)"
    by (simp add: mat_mult_def lincomb_def wf_mat_len)
qed

lemma ent_mat_mult:
  assumes "wf_mat A" "wf_mat B" "ncol A = nrow B" "j < ncol B"
  shows "ent (mat_mult A B) i j = (\<Sum>k<ncol A. ent A i k * ent B k j)"
proof -
  have wB: "wf_vec (ncol A) (col B ! j)" using wf_matD[OF assms(2,4)] assms(3) by simp
  have "\<forall>p\<in>set (col B ! j). wf_vec (nrow A) (col A ! fst p)"
    using wf_vec_bound[OF wB] assms(1) by (auto intro: wf_matD)
  from lincomb_fold[OF wf_vec_Nil this, of i]
  have "ent (mat_mult A B) i j = (\<Sum>p\<leftarrow>col B ! j. snd p * getval (col A ! fst p) i)"
    using assms(2,4) by (simp add: ent_def mat_mult_def lincomb_def wf_mat_len)
  also have "\<dots> = (\<Sum>k<ncol A. getval (col B ! j) k * getval (col A ! k) i)"
    by (rule sum_list_sparse[OF wB, where f = "\<lambda>k b. b * getval (col A ! k) i"]) simp
  finally show ?thesis by (simp add: ent_def mult.commute)
qed

lemma nrow_T [simp]: "nrow (T A) = ncol A"
  and ncol_T [simp]: "ncol (T A) = nrow A"
  and length_col_T [simp]: "length (col (T A)) = nrow A"
  by (simp_all add: T_def)

lemma wf_T [simp]: "wf_mat (T A)"
  by (rule wf_matI) (simp_all add: T_def wf_vec_of)

lemma ent_T: "i < nrow A \<Longrightarrow> ent (T A) j i = (if j < ncol A then ent A i j else 0)"
  by (simp add: ent_def T_def getval_vec_of)

lemma nrow_J [simp]: "nrow (J_conjugation A) = nrow A"
  and ncol_J [simp]: "ncol (J_conjugation A) = ncol A"
  and length_col_J [simp]: "length (col (J_conjugation A)) = length (col A)"
  by (simp_all add: J_conjugation_def)

lemma wf_vec_Jrev:
  assumes "wf_vec m v"
  shows "wf_vec m (rev (map (\<lambda>p. (m - Suc (fst p), snd p)) v))"
proof -
  have "sorted_wrt (>) (map (\<lambda>p. m - Suc (fst p)) v)"
    using assms
  proof (induction v)
    case (Cons p v)
    have "\<forall>q\<in>set v. m - Suc (fst q) < m - Suc (fst p)"
    proof
      fix q assume q: "q \<in> set v"
      with Cons.prems have "fst p < fst q" "fst q < m" by (auto simp: wf_vec_Cons dest: wf_vec_bound)
      then show "m - Suc (fst q) < m - Suc (fst p)" by simp
    qed
    with Cons show ?case by (simp add: wf_vec_Cons)
  qed simp
  then have "sorted_wrt (<) (map fst (rev (map (\<lambda>p. (m - Suc (fst p), snd p)) v)))"
    by (simp add: rev_map[symmetric] sorted_wrt_rev comp_def)
  moreover have "list_all (\<lambda>p. fst p < m \<and> snd p \<noteq> 0) (rev (map (\<lambda>p. (m - Suc (fst p), snd p)) v))"
    using assms by (auto simp: list_all_iff wf_vec_def)
  ultimately show ?thesis by (simp add: wf_vec_def)
qed

lemma getval_Jrev:
  assumes "wf_vec m v" "i < m"
  shows "getval (rev (map (\<lambda>p. (m - Suc (fst p), snd p)) v)) i = getval v (m - Suc i)"
proof (cases "getval v (m - Suc i) = 0")
  case True
  have "i \<notin> fst ` set (rev (map (\<lambda>p. (m - Suc (fst p), snd p)) v))"
  proof
    assume "i \<in> fst ` set (rev (map (\<lambda>p. (m - Suc (fst p), snd p)) v))"
    then obtain p where p: "p \<in> set v" "i = m - Suc (fst p)" by auto
    with wf_vec_bound[OF assms(1) p(1)] assms(2) have "fst p = m - Suc i" by simp
    with getval_in[OF assms(1) p(1)] wf_vec_nz[OF assms(1) p(1)] True show False by simp
  qed
  with True show ?thesis by (simp add: getval_notin)
next
  case False
  from getval_mem[OF assms(1) False]
  have "(m - Suc (m - Suc i), getval v (m - Suc i)) \<in> set (rev (map (\<lambda>p. (m - Suc (fst p), snd p)) v))"
    by force
  from getval_in[OF wf_vec_Jrev[OF assms(1)] this] assms(2) show ?thesis by simp
qed

lemma col_J:
  "j < length (col A) \<Longrightarrow>
   col (J_conjugation A) ! j =
     rev (map (\<lambda>p. (nrow A - Suc (fst p), snd p)) (col A ! (length (col A) - Suc j)))"
  by (simp add: J_conjugation_def rev_nth)

lemma wf_J: "wf_mat A \<Longrightarrow> wf_mat (J_conjugation A)"
proof (rule wf_matI)
  fix j assume a: "wf_mat A" "j < ncol (J_conjugation A)"
  then have "wf_vec (nrow A) (col A ! (ncol A - Suc j))" by (intro wf_matD) simp_all
  from wf_vec_Jrev[OF this] a show "wf_vec (nrow (J_conjugation A)) (col (J_conjugation A) ! j)"
    by (simp add: col_J wf_mat_len)
qed (simp add: wf_mat_len)

lemma ent_J:
  assumes "wf_mat A" "i < nrow A" "j < ncol A"
  shows "ent (J_conjugation A) i j = ent A (nrow A - Suc i) (ncol A - Suc j)"
proof -
  have "wf_vec (nrow A) (col A ! (ncol A - Suc j))" using assms by (intro wf_matD) simp_all
  from getval_Jrev[OF this assms(2)] assms show ?thesis
    by (simp add: ent_def col_J wf_mat_len)
qed

subsection \<open>Transpose and conjugation\<close>

lemma T_T: "wf_mat A \<Longrightarrow> T (T A) = A"
  by (rule mat_ext) (simp_all add: ent_T)

lemma ent_J': 
  "wf_mat A \<Longrightarrow> i < nrow A \<Longrightarrow> j < ncol A \<Longrightarrow>
   ent (J_conjugation A) (nrow A - Suc i) (ncol A - Suc j) = ent A i j"
  by (simp add: ent_J)

lemma J_J: "wf_mat A \<Longrightarrow> J_conjugation (J_conjugation A) = A"
  by (rule mat_ext) (simp_all add: ent_J wf_J)

lemma J_T: "wf_mat A \<Longrightarrow> J_conjugation (T A) = T (J_conjugation A)"
  by (rule mat_ext) (simp_all add: ent_J ent_T wf_J)

lemma T_identity: "T (identity k) = identity k"
  by (rule mat_ext) (auto simp: ent_T ent_identity)

lemma J_identity: "J_conjugation (identity k) = identity k"
  by (rule mat_ext) (auto simp: ent_J ent_identity wf_J)

lemma sum_rev_lessThan: "(\<Sum>k<n. f (n - Suc k)) = (\<Sum>k<n. f (k::nat) :: 'a::comm_monoid_add)"
  by (rule sum.reindex_bij_witness[where i = "\<lambda>k. n - Suc k" and j = "\<lambda>k. n - Suc k"]) auto

lemma T_mult:
  assumes "wf_mat A" "wf_mat B" "ncol A = nrow B"
  shows "T (mat_mult A B) = mat_mult (T B) (T A)"
proof (rule mat_ext)
  show "wf_mat (mat_mult (T B) (T A))" using assms by (intro wf_mat_mult) simp_all
  fix i j assume ij: "i < nrow (T (mat_mult A B))" "j < ncol (T (mat_mult A B))"
  then have i: "i < ncol B" and j: "j < nrow A" by simp_all
  have "ent (T (mat_mult A B)) i j = (\<Sum>k<ncol A. ent A j k * ent B k i)"
    using i j assms by (simp add: ent_T ent_mat_mult)
  also have "\<dots> = (\<Sum>k<ncol A. ent (T B) i k * ent (T A) k j)"
    using i j assms by (intro sum.cong) (simp_all add: ent_T mult.commute)
  also have "\<dots> = ent (mat_mult (T B) (T A)) i j"
    using i j assms by (subst ent_mat_mult) simp_all
  finally show "ent (T (mat_mult A B)) i j = ent (mat_mult (T B) (T A)) i j" .
qed simp_all

lemma J_mult:
  assumes "wf_mat A" "wf_mat B" "ncol A = nrow B"
  shows "J_conjugation (mat_mult A B) = mat_mult (J_conjugation A) (J_conjugation B)"
proof (rule mat_ext)
  show "wf_mat (J_conjugation (mat_mult A B))" using assms by (intro wf_J wf_mat_mult)
  show "wf_mat (mat_mult (J_conjugation A) (J_conjugation B))"
    using assms by (intro wf_mat_mult wf_J) simp_all
  fix i j assume "i < nrow (J_conjugation (mat_mult A B))" "j < ncol (J_conjugation (mat_mult A B))"
  then have i: "i < nrow A" and j: "j < ncol B" by simp_all
  have "ent (J_conjugation (mat_mult A B)) i j =
        (\<Sum>k<ncol A. ent A (nrow A - Suc i) k * ent B k (ncol B - Suc j))"
    using i j assms by (simp add: ent_J wf_mat_mult ent_mat_mult)
  also have "\<dots> = (\<Sum>k<ncol A. ent A (nrow A - Suc i) (ncol A - Suc k) * ent B (ncol A - Suc k) (ncol B - Suc j))"
    by (rule sum_rev_lessThan[symmetric])
  also have "\<dots> = (\<Sum>k<ncol A. ent (J_conjugation A) i k * ent (J_conjugation B) k j)"
    using i j assms by (intro sum.cong) (simp_all add: ent_J)
  also have "\<dots> = ent (mat_mult (J_conjugation A) (J_conjugation B)) i j"
    using i j assms by (subst ent_mat_mult) (simp_all add: wf_J)
  finally show "ent (J_conjugation (mat_mult A B)) i j =
                ent (mat_mult (J_conjugation A) (J_conjugation B)) i j" .
qed simp_all

lemma mat_mult_assoc:
  assumes "wf_mat A" "wf_mat B" "wf_mat C" "ncol A = nrow B" "ncol B = nrow C"
  shows "mat_mult (mat_mult A B) C = mat_mult A (mat_mult B C)"
proof (rule mat_ext)
  show "wf_mat (mat_mult (mat_mult A B) C)" using assms by (intro wf_mat_mult) simp_all
  show "wf_mat (mat_mult A (mat_mult B C))" using assms by (intro wf_mat_mult) simp_all
  fix i j assume "i < nrow (mat_mult (mat_mult A B) C)" "j < ncol (mat_mult (mat_mult A B) C)"
  then have j: "j < ncol C" by simp
  have "ent (mat_mult (mat_mult A B) C) i j =
        (\<Sum>k<ncol B. (\<Sum>l<ncol A. ent A i l * ent B l k) * ent C k j)"
    using assms j by (simp add: ent_mat_mult wf_mat_mult)
  also have "\<dots> = (\<Sum>k<ncol B. \<Sum>l<ncol A. ent A i l * (ent B l k * ent C k j))"
    by (simp add: sum_distrib_right mult.assoc)
  also have "\<dots> = (\<Sum>l<ncol A. \<Sum>k<ncol B. ent A i l * (ent B l k * ent C k j))"
    by (rule sum.swap)
  also have "\<dots> = (\<Sum>l<ncol A. ent A i l * ent (mat_mult B C) l j)"
    using assms j by (simp add: ent_mat_mult sum_distrib_left)
  also have "\<dots> = ent (mat_mult A (mat_mult B C)) i j"
    using assms j by (subst ent_mat_mult) (simp_all add: wf_mat_mult)
  finally show "ent (mat_mult (mat_mult A B) C) i j = ent (mat_mult A (mat_mult B C)) i j" .
qed simp_all

subsection \<open>The pivot map\<close>

lemma piv_row_Nil [simp]: "piv_row [] i = None"
  by (simp add: piv_row_def lower_bound_def)

lemma piv_row_Cons: "piv_row (p # v) i = (if i \<le> fst p then Some (fst p) else piv_row v i)"
  by (simp add: piv_row_def lower_bound_def)

lemma piv_row_Some_iff:
  assumes "wf_vec m v"
  shows "piv_row v i = Some r \<longleftrightarrow>
         i \<le> r \<and> getval v r \<noteq> 0 \<and> (\<forall>t. i \<le> t \<and> t < r \<longrightarrow> getval v t = 0)"
  using assms
proof (induction v)
  case Nil
  then show ?case by simp
next
  case (Cons p v)
  have pv: "\<forall>q\<in>set v. fst p < fst q" and wv: "wf_vec m v" and pz: "snd p \<noteq> 0"
    using Cons.prems by (auto simp: wf_vec_Cons)
  have small: "\<And>t. t \<le> fst p \<Longrightarrow> getval v t = 0"
    using pv by (intro getval_notin) force
  show ?case
  proof (cases "i \<le> fst p")
    case True
    have "(i \<le> r \<and> getval (p # v) r \<noteq> 0 \<and> (\<forall>t. i \<le> t \<and> t < r \<longrightarrow> getval (p # v) t = 0))
          \<longleftrightarrow> r = fst p"
    proof
      assume a: "i \<le> r \<and> getval (p # v) r \<noteq> 0 \<and> (\<forall>t. i \<le> t \<and> t < r \<longrightarrow> getval (p # v) t = 0)"
      show "r = fst p"
      proof (rule ccontr)
        assume ne: "r \<noteq> fst p"
        with a have "getval v r \<noteq> 0" by (simp add: getval_Cons)
        with small[of r] have "fst p < r" by (cases "r \<le> fst p") auto
        with a True have "getval (p # v) (fst p) = 0" by blast
        with pz show False by (simp add: getval_Cons)
      qed
    next
      assume "r = fst p"
      with True pz small show "i \<le> r \<and> getval (p # v) r \<noteq> 0 \<and> (\<forall>t. i \<le> t \<and> t < r \<longrightarrow> getval (p # v) t = 0)"
        by (auto simp: getval_Cons)
    qed
    with True show ?thesis by (auto simp: piv_row_Cons)
  next
    case False
    then have "\<And>t. i \<le> t \<Longrightarrow> getval (p # v) t = getval v t" by (simp add: getval_Cons)
    then have "(i \<le> r \<and> getval (p # v) r \<noteq> 0 \<and> (\<forall>t. i \<le> t \<and> t < r \<longrightarrow> getval (p # v) t = 0))
          \<longleftrightarrow> (i \<le> r \<and> getval v r \<noteq> 0 \<and> (\<forall>t. i \<le> t \<and> t < r \<longrightarrow> getval v t = 0))"
      by auto
    with False Cons.IH[OF wv] show ?thesis by (simp add: piv_row_Cons)
  qed
qed

lemma piv_row_SomeD:
  "wf_vec m v \<Longrightarrow> piv_row v i = Some r \<Longrightarrow> i \<le> r \<and> r < m \<and> getval v r \<noteq> 0"
  using piv_row_Some_iff[of m v i r] getval_ge[of m v r] by (cases "r < m") auto

lemma piv_row_None_iff:
  assumes "wf_vec m v"
  shows "piv_row v i = None \<longleftrightarrow> (\<forall>t. i \<le> t \<longrightarrow> getval v t = 0)"
  using assms
proof (induction v)
  case Nil
  then show ?case by simp
next
  case (Cons p v)
  have wv: "wf_vec m v" and pz: "snd p \<noteq> 0"
    using Cons.prems by (auto simp: wf_vec_Cons)
  show ?case
  proof (cases "i \<le> fst p")
    case True
    with pz have "\<not> (\<forall>t. i \<le> t \<longrightarrow> getval (p # v) t = 0)"
      by (auto simp: getval_Cons intro!: exI[of _ "fst p"])
    with True show ?thesis by (simp add: piv_row_Cons)
  next
    case False
    then have "\<And>t. i \<le> t \<Longrightarrow> getval (p # v) t = getval v t" by (simp add: getval_Cons)
    then have "(\<forall>t. i \<le> t \<longrightarrow> getval (p # v) t = 0) \<longleftrightarrow> (\<forall>t. i \<le> t \<longrightarrow> getval v t = 0)"
      by auto
    with False Cons.IH[OF wv] show ?thesis by (simp add: piv_row_Cons)
  qed
qed

lemma piv_row_at:
  "wf_vec m v \<Longrightarrow> getval v i \<noteq> 0 \<Longrightarrow> piv_row v i = Some i"
  by (auto simp: piv_row_Some_iff[where m = m])

lemma piv_row_Suc:
  assumes "wf_vec m v" "getval v i = 0"
  shows "piv_row v (Suc i) = piv_row v i"
proof (cases "piv_row v i")
  case None
  then have "piv_row v (Suc i) = None"
    using assms(1) by (simp add: piv_row_None_iff)
  with None show ?thesis by simp
next
  case (Some r)
  then have r: "i \<le> r" "getval v r \<noteq> 0" "\<forall>t. i \<le> t \<and> t < r \<longrightarrow> getval v t = 0"
    using assms(1) by (simp_all add: piv_row_Some_iff[where m = m])
  with assms(2) have "Suc i \<le> r" by (cases "r = i") auto
  with r have "piv_row v (Suc i) = Some r"
    using assms(1) by (simp add: piv_row_Some_iff[where m = m])
  with Some show ?thesis by simp
qed

lemma piv_row_cong:
  assumes "wf_vec m v" "wf_vec m w" "\<And>t. i \<le> t \<Longrightarrow> getval v t = getval w t"
  shows "piv_row v i = piv_row w i"
proof (cases "piv_row w i")
  case None
  then have "\<forall>t. i \<le> t \<longrightarrow> getval w t = 0" using assms(2) by (simp add: piv_row_None_iff[where m = m])
  with assms(3) have "\<forall>t. i \<le> t \<longrightarrow> getval v t = 0" by simp
  then have "piv_row v i = None" using assms(1) by (simp add: piv_row_None_iff[where m = m])
  with None show ?thesis by simp
next
  case (Some r)
  then have "i \<le> r \<and> getval w r \<noteq> 0 \<and> (\<forall>t. i \<le> t \<and> t < r \<longrightarrow> getval w t = 0)"
    using assms(2) by (simp add: piv_row_Some_iff[where m = m])
  with assms(3) have "i \<le> r \<and> getval v r \<noteq> 0 \<and> (\<forall>t. i \<le> t \<and> t < r \<longrightarrow> getval v t = 0)"
    by simp
  then have "piv_row v i = Some r" using assms(1) by (simp add: piv_row_Some_iff[where m = m])
  with Some show ?thesis by simp
qed

lemma update_pivot_alt:
  "update_pivot A p j i0 =
     (case piv_row (col A ! j) i0 of None \<Rightarrow> p | Some r \<Rightarrow> p(r \<mapsto> bucket p r @ [j]))"
  by (simp add: update_pivot_def piv_row_def split: option.splits)

lemma delete_pivot_alt:
  "delete_pivot A p j i0 =
     (case piv_row (col A ! j) i0 of None \<Rightarrow> p | Some r \<Rightarrow> p(r \<mapsto> remove1 j (bucket p r)))"
  by (simp add: delete_pivot_def piv_row_def split: option.splits)

lemma bucket_update_pivot:
  "bucket (update_pivot A p j i0) r =
     bucket p r @ (if piv_row (col A ! j) i0 = Some r then [j] else [])"
  by (auto simp: update_pivot_alt bucket_def split: option.splits)

lemma update_pivot_nonempty: "p r \<noteq> Some [] \<Longrightarrow> update_pivot A p j i0 r \<noteq> Some []"
  by (auto simp: update_pivot_alt split: option.splits)

lemma update_pivot_nonempty':
  "piv_row (col A ! j) i0 = Some r \<Longrightarrow> update_pivot A p j i0 r \<noteq> Some []"
  by (auto simp: update_pivot_alt split: option.splits)

lemma bucket_delete_pivot:
  "bucket (delete_pivot A p j i0) r =
     (if piv_row (col A ! j) i0 = Some r then remove1 j (bucket p r) else bucket p r)"
  by (auto simp: delete_pivot_alt bucket_def split: option.splits)

lemma delete_pivot_other:
  "piv_row (col A ! j) i0 \<noteq> Some r \<Longrightarrow> delete_pivot A p j i0 r = p r"
  by (auto simp: delete_pivot_alt split: option.splits)

lemma get_pivots_fold:
  "let p = fold (\<lambda>j p2c. update_pivot A p2c j 0) [0..<k] Map.empty in
   \<forall>r. p r \<noteq> Some [] \<and> distinct (bucket p r) \<and>
       set (bucket p r) = {c. c < k \<and> piv_row (col A ! c) 0 = Some r}"
proof (induction k)
  case 0
  then show ?case by (simp add: bucket_def)
next
  case (Suc k)
  define p where "p = fold (\<lambda>j p2c. update_pivot A p2c j 0) [0..<k] Map.empty"
  have IH: "\<And>r. p r \<noteq> Some [] \<and> distinct (bucket p r) \<and>
       set (bucket p r) = {c. c < k \<and> piv_row (col A ! c) 0 = Some r}"
    using Suc by (simp add: p_def Let_def)
  have "\<And>r. update_pivot A p k 0 r \<noteq> Some [] \<and> distinct (bucket (update_pivot A p k 0) r) \<and>
       set (bucket (update_pivot A p k 0) r) = {c. c < Suc k \<and> piv_row (col A ! c) 0 = Some r}"
    using IH by (auto simp: bucket_update_pivot update_pivot_nonempty less_Suc_eq)
  then show ?case by (simp add: p_def Let_def)
qed

lemma pm_inv_get_pivots: "pm_inv A (get_pivots A) 0 0"
  using get_pivots_fold[of A "ncol A"] by (simp add: pm_inv_def get_pivots_def Let_def)

subsection \<open>The pivot map under a skipped row and a swap\<close>

lemma piv_row_ge: "piv_row v i = Some r \<Longrightarrow> i \<le> r"
  by (induction v) (auto simp: piv_row_Cons split: if_splits)

lemma nrow_swap_cols [simp]: "nrow (swap_cols j j2 A) = nrow A"
  and ncol_swap_cols [simp]: "ncol (swap_cols j j2 A) = ncol A"
  and length_col_swap_cols [simp]: "length (col (swap_cols j j2 A)) = length (col A)"
  by (simp_all add: swap_cols_def)

lemma col_swap_cols:
  "j < length (col A) \<Longrightarrow> j2 < length (col A) \<Longrightarrow>
   col (swap_cols j j2 A) ! c = (if c = j2 then col A ! j else if c = j then col A ! j2 else col A ! c)"
  by (simp add: swap_cols_def nth_list_update)

lemma wf_swap_cols:
  assumes "wf_mat A" "j < ncol A" "j2 < ncol A"
  shows "wf_mat (swap_cols j j2 A)"
proof (rule wf_matI)
  show "length (col (swap_cols j j2 A)) = ncol (swap_cols j j2 A)"
    using assms by (simp add: wf_mat_len)
  fix c assume "c < ncol (swap_cols j j2 A)"
  then show "wf_vec (nrow (swap_cols j j2 A)) (col (swap_cols j j2 A) ! c)"
    using assms by (simp add: col_swap_cols wf_mat_len wf_matD)
qed

lemma pm_inv_bucket:
  "pm_inv Em p i j \<Longrightarrow>
   set (bucket p r) = {c. j \<le> c \<and> c < ncol Em \<and> piv_row (col Em ! c) i = Some r}"
  by (simp add: pm_inv_def)

lemma pm_inv_distinct: "pm_inv Em p i j \<Longrightarrow> distinct (bucket p r)"
  by (simp add: pm_inv_def)

lemma pm_inv_nonempty: "pm_inv Em p i j \<Longrightarrow> p r \<noteq> Some []"
  by (simp add: pm_inv_def)

lemma pm_inv_skip:
  assumes pm: "pm_inv Em p i j" and wf: "wf_mat Em" and none: "p i = None"
  shows "pm_inv Em p (Suc i) j" and "\<And>c. j \<le> c \<Longrightarrow> c < ncol Em \<Longrightarrow> ent Em i c = 0"
proof -
  have z: "ent Em i c = 0" if "j \<le> c" "c < ncol Em" for c
  proof (rule ccontr)
    assume "ent Em i c \<noteq> 0"
    then have "piv_row (col Em ! c) i = Some i"
      using wf_matD[OF wf that(2)] by (simp add: ent_def piv_row_at)
    with that have "c \<in> set (bucket p i)" using pm_inv_bucket[OF pm, of i] by simp
    with none show False by (simp add: bucket_def)
  qed
  then show "\<And>c. j \<le> c \<Longrightarrow> c < ncol Em \<Longrightarrow> ent Em i c = 0" .
  have "piv_row (col Em ! c) (Suc i) = piv_row (col Em ! c) i" if "j \<le> c" "c < ncol Em" for c
    using piv_row_Suc[OF wf_matD[OF wf that(2)]] z[OF that] by (simp add: ent_def)
  then have "{c. j \<le> c \<and> c < ncol Em \<and> piv_row (col Em ! c) (Suc i) = Some r} =
             {c. j \<le> c \<and> c < ncol Em \<and> piv_row (col Em ! c) i = Some r}" for r
    by auto
  with pm show "pm_inv Em p (Suc i) j" by (simp add: pm_inv_def)
qed

lemma pm_inv_head:
  assumes pm: "pm_inv Em p i j" and hd: "p i = Some (j2 # b)"
  shows "j \<le> j2" "j2 < ncol Em" "piv_row (col Em ! j2) i = Some i" "j2 \<notin> set b" "distinct b"
    "set b = {c. j \<le> c \<and> c < ncol Em \<and> piv_row (col Em ! c) i = Some i} - {j2}"
proof -
  have b: "bucket p i = j2 # b" using hd by (simp add: bucket_def)
  from pm_inv_bucket[OF pm, of i] b
  have S: "insert j2 (set b) = {c. j \<le> c \<and> c < ncol Em \<and> piv_row (col Em ! c) i = Some i}" by simp
  then have "j2 \<in> {c. j \<le> c \<and> c < ncol Em \<and> piv_row (col Em ! c) i = Some i}" by blast
  then show "j \<le> j2" "j2 < ncol Em" "piv_row (col Em ! j2) i = Some i" by simp_all
  from pm_inv_distinct[OF pm, of i] b show d: "j2 \<notin> set b" "distinct b" by simp_all
  from S d show "set b = {c. j \<le> c \<and> c < ncol Em \<and> piv_row (col Em ! c) i = Some i} - {j2}"
    by blast
qed

lemma pm_mid_same:
  assumes pm: "pm_inv Em p i j" and hd: "p i = Some (j # b)"
  shows "pm_mid Em p i j"
proof -
  note h = pm_inv_head[OF pm hd]
  have b: "tl (bucket p i) = b" using hd by (simp add: bucket_def)
  have A4: "p r \<noteq> Some [] \<and> distinct (bucket p r) \<and>
      set (bucket p r) = {c. j < c \<and> c < ncol Em \<and> piv_row (col Em ! c) i = Some r}"
    if "r \<noteq> i" for r
  proof -
    have "{c. j \<le> c \<and> c < ncol Em \<and> piv_row (col Em ! c) i = Some r} =
          {c. j < c \<and> c < ncol Em \<and> piv_row (col Em ! c) i = Some r}"
      using h(3) that by (auto simp: le_less)
    with pm_inv_bucket[OF pm, of r] pm_inv_distinct[OF pm, of r] pm_inv_nonempty[OF pm, of r]
    show ?thesis by simp
  qed
  have "{c. j \<le> c \<and> c < ncol Em \<and> piv_row (col Em ! c) i = Some i} - {j} =
        {c. j < c \<and> c < ncol Em \<and> piv_row (col Em ! c) i = Some i}"
    by (auto simp: le_less)
  with h(6) have A3: "set (tl (bucket p i)) = {c. j < c \<and> c < ncol Em \<and> piv_row (col Em ! c) i = Some i}"
    using b by simp
  have A2: "distinct (tl (bucket p i))" using h(5) b by simp
  show ?thesis
    unfolding pm_mid_def using h(3) A2 A3 A4 by blast
qed

lemma pm_mid_swap:
  assumes pm: "pm_inv Em p i j" and wf: "wf_mat Em" and j: "j < ncol Em"
    and hd: "p i = Some (j2 # b)" and ne: "j2 \<noteq> j"
  shows "pm_mid (swap_cols j j2 Em) (update_pivot (swap_cols j j2 Em) (delete_pivot Em p j i) j2 i) i j"
proof -
  note h = pm_inv_head[OF pm hd]
  define E1 where "E1 = swap_cols j j2 Em"
  define q where "q = piv_row (col Em ! j) i"
  define p2 where "p2 = update_pivot E1 (delete_pivot Em p j i) j2 i"
  have len: "length (col Em) = ncol Em" using wf by (simp add: wf_mat_len)
  have jj2: "j < j2" using h(1) ne by simp
  have c1: "col E1 ! j = col Em ! j2" and c2: "col E1 ! j2 = col Em ! j"
    and c3: "\<And>c. c \<noteq> j \<Longrightarrow> c \<noteq> j2 \<Longrightarrow> col E1 ! c = col Em ! c"
    using j h(2) ne by (simp_all add: E1_def col_swap_cols len)
  have n1: "ncol E1 = ncol Em" by (simp add: E1_def)
  have b0: "bucket p i = j2 # b" using hd by (simp add: bucket_def)
  have bk: "bucket p2 r = (if q = Some r then remove1 j (bucket p r) @ [j2] else bucket p r)" for r
    by (simp add: p2_def bucket_update_pivot bucket_delete_pivot c2 q_def)
  have S: "set (bucket p r) = {c. j \<le> c \<and> c < ncol Em \<and> piv_row (col Em ! c) i = Some r}" for r
    by (rule pm_inv_bucket[OF pm])
  have D: "distinct (bucket p r)" for r by (rule pm_inv_distinct[OF pm])
  have pr1: "piv_row (col E1 ! c) i = Some r \<longleftrightarrow>
             (if c = j2 then q = Some r else piv_row (col Em ! c) i = Some r)"
    if "j < c" for c r
    using that c2 c3[of c] by (auto simp: q_def)
  have tgt: "{c. j < c \<and> c < ncol E1 \<and> piv_row (col E1 ! c) i = Some r} =
        (if q = Some r then insert j2 ({c. j \<le> c \<and> c < ncol Em \<and> piv_row (col Em ! c) i = Some r} - {j})
         else {c. j \<le> c \<and> c < ncol Em \<and> piv_row (col Em ! c) i = Some r} - {j2})" for r
  proof (cases "q = Some r")
    case True
    then show ?thesis using pr1 jj2 h(2) n1 by (auto split: if_splits)
  next
    case False
    then have "piv_row (col Em ! j) i \<noteq> Some r" by (simp add: q_def)
    with False show ?thesis using pr1 jj2 h(2) n1 by (auto simp: le_less split: if_splits)
  qed
  have A1: "piv_row (col E1 ! j) i = Some i" using c1 h(3) by simp
  have A2: "distinct (tl (bucket p2 i))"
    using bk[of i] b0 ne h(4,5) by (auto simp: distinct_remove1)
  have A3: "set (tl (bucket p2 i)) = {c. j < c \<and> c < ncol E1 \<and> piv_row (col E1 ! c) i = Some i}"
  proof (cases "q = Some i")
    case True
    have "set (tl (bucket p2 i)) = insert j2 (set b - {j})"
      using bk[of i] b0 ne True h(5) by (simp add: set_remove1_eq)
    also have "\<dots> = insert j2 ({c. j \<le> c \<and> c < ncol Em \<and> piv_row (col Em ! c) i = Some i} - {j})"
      using h(6) by auto
    finally show ?thesis using tgt[of i] True by simp
  next
    case False
    have "set (tl (bucket p2 i)) = set b" using bk[of i] b0 False by simp
    with h(6) tgt[of i] False show ?thesis by simp
  qed
  have A4: "p2 r \<noteq> Some [] \<and> distinct (bucket p2 r) \<and>
            set (bucket p2 r) = {c. j < c \<and> c < ncol E1 \<and> piv_row (col E1 ! c) i = Some r}"
    if "r \<noteq> i" for r
  proof (cases "q = Some r")
    case True
    have notin: "j2 \<notin> set (bucket p r)" using S[of r] h(3) that by auto
    have "p2 r \<noteq> Some []"
      unfolding p2_def by (rule update_pivot_nonempty') (simp add: c2 True[unfolded q_def, symmetric])
    moreover have "distinct (bucket p2 r)"
      using bk[of r] True D[of r] notin by (auto simp: distinct_remove1 dest: notin_set_remove1)
    moreover have "set (bucket p2 r) = insert j2 (set (bucket p r) - {j})"
      using bk[of r] True D[of r] by (simp add: set_remove1_eq)
    ultimately show ?thesis using tgt[of r] True S[of r] by simp
  next
    case False
    have "delete_pivot Em p j i r = p r"
      by (rule delete_pivot_other) (use False in \<open>simp add: q_def\<close>)
    moreover have "piv_row (col E1 ! j2) i \<noteq> Some r" using False c2 by (simp add: q_def)
    ultimately have "p2 r = p r"
      by (auto simp: p2_def update_pivot_alt split: option.splits)
    moreover have "j2 \<notin> set (bucket p r)" using S[of r] h(3) that by auto
    ultimately show ?thesis
      using bk[of r] False D[of r] pm_inv_nonempty[OF pm, of r] tgt[of r] S[of r] by auto
  qed
  show ?thesis
    unfolding pm_mid_def E1_def[symmetric] p2_def[symmetric] using A1 A2 A3 A4 by blast
qed

subsection \<open>The pivot map under the Schur complement updates\<close>

lemma schur_col_eq:
  "schur_col m i j a x (Ec, pc) =
     (Ec\<lparr>col := (col Ec)[x := axpy (- (ent Ec i x / a)) (col Ec ! j) (Suc i) m (col Ec ! x)]\<rparr>,
      update_pivot (Ec\<lparr>col := (col Ec)[x := axpy (- (ent Ec i x / a)) (col Ec ! j) (Suc i) m (col Ec ! x)]\<rparr>)
        pc x (Suc i))"
  by (simp add: schur_col_def Let_def)

lemma schur_fold:
  assumes "distinct xs" "j \<notin> set xs" "\<forall>c\<in>set xs. c < length (col Ec)"
  shows "\<exists>E' p'. fold (schur_col m i j a) xs (Ec, pc) = (E', p') \<and>
      nrow E' = nrow Ec \<and> ncol E' = ncol Ec \<and> length (col E') = length (col Ec) \<and>
      (\<forall>c. col E' ! c = (if c \<in> set xs
          then axpy (- (ent Ec i c / a)) (col Ec ! j) (Suc i) m (col Ec ! c) else col Ec ! c)) \<and>
      (\<forall>r. bucket p' r = bucket pc r @ filter (\<lambda>c. piv_row (col E' ! c) (Suc i) = Some r) xs) \<and>
      (\<forall>r. pc r \<noteq> Some [] \<longrightarrow> p' r \<noteq> Some [])"
  using assms
proof (induction xs arbitrary: Ec pc)
  case Nil
  then show ?case by simp
next
  case (Cons x xs)
  define u where "u = axpy (- (ent Ec i x / a)) (col Ec ! j) (Suc i) m (col Ec ! x)"
  define E1 where "E1 = Ec\<lparr>col := (col Ec)[x := u]\<rparr>"
  define p1 where "p1 = update_pivot E1 pc x (Suc i)"
  have step: "schur_col m i j a x (Ec, pc) = (E1, p1)"
    by (simp add: schur_col_eq E1_def p1_def u_def)
  have x: "x < length (col Ec)" "x \<noteq> j" "x \<notin> set xs" using Cons.prems by auto
  have e1: "col E1 ! x = u" "\<And>c. c \<noteq> x \<Longrightarrow> col E1 ! c = col Ec ! c"
    "nrow E1 = nrow Ec" "ncol E1 = ncol Ec" "length (col E1) = length (col Ec)"
    using x by (simp_all add: E1_def)
  have pre: "distinct xs" "j \<notin> set xs" "\<forall>c\<in>set xs. c < length (col E1)"
    using Cons.prems e1(5) by auto
  from Cons.IH[OF pre, of p1] obtain E' p' where
    f: "fold (schur_col m i j a) xs (E1, p1) = (E', p')"
    and d: "nrow E' = nrow E1" "ncol E' = ncol E1" "length (col E') = length (col E1)"
    and c: "\<And>c. col E' ! c = (if c \<in> set xs
          then axpy (- (ent E1 i c / a)) (col E1 ! j) (Suc i) m (col E1 ! c) else col E1 ! c)"
    and b: "\<And>r. bucket p' r = bucket p1 r @ filter (\<lambda>c. piv_row (col E' ! c) (Suc i) = Some r) xs"
    and ne: "\<And>r. p1 r \<noteq> Some [] \<Longrightarrow> p' r \<noteq> Some []"
    by blast
  have c': "col E' ! c = (if c \<in> set (x # xs)
          then axpy (- (ent Ec i c / a)) (col Ec ! j) (Suc i) m (col Ec ! c) else col Ec ! c)" for c
  proof (cases "c = x")
    case True
    then show ?thesis using c[of x] x e1(1) by (simp add: u_def)
  next
    case False
    then show ?thesis using c[of c] x e1(2)[of c] e1(2)[of j] by (simp add: ent_def)
  qed
  have ex: "col E' ! x = col E1 ! x" using c[of x] x by simp
  have b': "bucket p' r = bucket pc r @ filter (\<lambda>c. piv_row (col E' ! c) (Suc i) = Some r) (x # xs)" for r
    using b[of r] by (simp add: p1_def bucket_update_pivot ex)
  have ne': "pc r \<noteq> Some [] \<Longrightarrow> p' r \<noteq> Some []" for r
    using ne[of r] by (simp add: p1_def update_pivot_nonempty)
  have "fold (schur_col m i j a) (x # xs) (Ec, pc) = (E', p')"
    using f step by simp
  with d e1 c' b' ne' show ?case by (intro exI[of _ E'] exI[of _ p']) simp
qed

lemma pm_inv_after:
  assumes mid: "pm_mid E1 p1 i j" and wf: "wf_mat E1"
    and cols: "\<And>c. col E3 ! c = (if c \<in> set (tl (bucket p1 i)) then W c else col E1 ! c)"
    and bk: "\<And>r. bucket p3 r = bucket p1 r @ filter (\<lambda>c. piv_row (col E3 ! c) (Suc i) = Some r) (tl (bucket p1 i))"
    and ne: "\<And>r. p1 r \<noteq> Some [] \<Longrightarrow> p3 r \<noteq> Some []"
    and E4: "ncol E4 = ncol E1" "\<And>c. c \<noteq> j \<Longrightarrow> col E4 ! c = col E3 ! c"
  shows "pm_inv E4 (p3(i := None)) (Suc i) (Suc j)"
proof -
  define rest where "rest = tl (bucket p1 i)"
  have m1: "distinct rest" "set rest = {c. j < c \<and> c < ncol E1 \<and> piv_row (col E1 ! c) i = Some i}"
    and m2: "\<And>r. r \<noteq> i \<Longrightarrow> p1 r \<noteq> Some [] \<and> distinct (bucket p1 r) \<and>
          set (bucket p1 r) = {c. j < c \<and> c < ncol E1 \<and> piv_row (col E1 ! c) i = Some r}"
    using mid by (simp_all add: pm_mid_def rest_def)
  have unchanged: "piv_row (col E3 ! c) (Suc i) = piv_row (col E1 ! c) i"
    if "j < c" "c < ncol E1" "c \<notin> set rest" for c
  proof -
    have "piv_row (col E1 ! c) i \<noteq> Some i" using that m1(2) by simp
    then have "getval (col E1 ! c) i = 0"
      using piv_row_at[OF wf_matD[OF wf that(2)], of i] by auto
    from piv_row_Suc[OF wf_matD[OF wf that(2)] this] cols[of c] that(3)
    show ?thesis by (simp add: rest_def)
  qed
  have goal: "(p3(i := None)) r \<noteq> Some [] \<and> distinct (bucket (p3(i := None)) r) \<and>
        set (bucket (p3(i := None)) r) =
          {c. Suc j \<le> c \<and> c < ncol E4 \<and> piv_row (col E4 ! c) (Suc i) = Some r}" for r
  proof (cases "r = i")
    case True
    have "piv_row (col E4 ! c) (Suc i) \<noteq> Some i" for c
      using piv_row_ge[of "col E4 ! c" "Suc i" i] by auto
    with True show ?thesis by (simp add: bucket_def)
  next
    case False
    have b3: "bucket (p3(i := None)) r = bucket p1 r @ filter (\<lambda>c. piv_row (col E3 ! c) (Suc i) = Some r) rest"
      using False bk[of r] by (simp add: bucket_def rest_def)
    have d1: "distinct (bucket p1 r)" and s1: "c \<in> set (bucket p1 r) \<Longrightarrow> piv_row (col E1 ! c) i = Some r" for c
      using m2[OF False] by simp_all
    have s2: "c \<in> set rest \<Longrightarrow> piv_row (col E1 ! c) i = Some i" for c
      using m1(2) by simp
    have disj: "set (bucket p1 r) \<inter> set rest = {}"
    proof (rule ccontr)
      assume "set (bucket p1 r) \<inter> set rest \<noteq> {}"
      then obtain c where "c \<in> set (bucket p1 r)" "c \<in> set rest" by blast
      with s1[of c] s2[of c] False show False by simp
    qed
    then have "set (bucket p1 r) \<inter> set (filter (\<lambda>c. piv_row (col E3 ! c) (Suc i) = Some r) rest) = {}"
      by auto
    with d1 m1(1) have "distinct (bucket (p3(i := None)) r)"
      unfolding b3 by (simp only: distinct_append distinct_filter simp_thms)
    moreover have "(p3(i := None)) r \<noteq> Some []"
      using False ne[of r] m2[OF False] by simp
    moreover have "set (bucket (p3(i := None)) r) =
          {c. Suc j \<le> c \<and> c < ncol E4 \<and> piv_row (col E4 ! c) (Suc i) = Some r}"
    proof (rule set_eqI)
      fix c
      show "c \<in> set (bucket (p3(i := None)) r) \<longleftrightarrow>
            c \<in> {c. Suc j \<le> c \<and> c < ncol E4 \<and> piv_row (col E4 ! c) (Suc i) = Some r}"
      proof (cases "j < c \<and> c < ncol E1")
        case jc: True
        then have e4: "col E4 ! c = col E3 ! c" using E4(2)[of c] by simp
        show ?thesis
        proof (cases "c \<in> set rest")
          case True
          then have "c \<notin> set (bucket p1 r)" using disj by auto
          with True jc e4 E4(1) show ?thesis by (simp add: b3)
        next
          case nr: False
          have "piv_row (col E3 ! c) (Suc i) = piv_row (col E1 ! c) i"
            using unchanged jc nr by simp
          with nr jc e4 E4(1) m2[OF False] show ?thesis by (simp add: b3)
        qed
      next
        case False
        then have "c \<notin> set (bucket p1 r)" "c \<notin> set rest"
          using m2[OF \<open>r \<noteq> i\<close>] m1(2) by auto
        with False E4(1) show ?thesis by (auto simp: b3)
      qed
    qed
    ultimately show ?thesis by (intro conjI)
  qed
  show ?thesis unfolding pm_inv_def by (rule allI) (rule goal)
qed

subsection \<open>Triangular shapes and permutation matrices\<close>

lemma is_lower_iff: "is_lower A \<longleftrightarrow> (\<forall>j<length (col A). \<forall>p\<in>set (col A ! j). j \<le> fst p)"
  by (auto simp: is_lower_def list_all_iff)

lemma is_upper_iff: "is_upper A \<longleftrightarrow> (\<forall>j<length (col A). \<forall>p\<in>set (col A ! j). fst p \<le> j)"
  by (auto simp: is_upper_def list_all_iff)

lemma unit_diagonal_iff:
  "unit_diagonal A \<longleftrightarrow> nrow A = ncol A \<and> (\<forall>j<length (col A). ent A j j = 1)"
  by (auto simp: unit_diagonal_def list_all_iff)

lemma is_upper_ent: "is_upper A \<Longrightarrow> c < length (col A) \<Longrightarrow> c < r \<Longrightarrow> ent A r c = 0"
  unfolding ent_def by (rule getval_notin) (fastforce simp: is_upper_iff)

lemma is_lower_ent: "is_lower A \<Longrightarrow> c < length (col A) \<Longrightarrow> r < c \<Longrightarrow> ent A r c = 0"
  unfolding ent_def by (rule getval_notin) (fastforce simp: is_lower_iff)

lemma perm_cols_length: "perm_cols n Pm \<Longrightarrow> length (perm_of Pm) = n"
  unfolding perm_cols_def using distinct_card[of "perm_of Pm"] by auto

lemma perm_cols_lt: "perm_cols n Pm \<Longrightarrow> c < n \<Longrightarrow> perm_of Pm ! c < n"
  using perm_cols_length[of n Pm] nth_mem[of c "perm_of Pm"] by (auto simp: perm_cols_def)

lemma perm_cols_identity: "perm_cols n (identity n)"
proof -
  have "perm_of (identity n :: 'a ColumnMatrix) = [0..<n]"
    by (simp add: perm_of_def identity_def comp_def map_idI)
  then show ?thesis
    by (auto simp: perm_cols_def identity_def)
qed

lemma perm_of_identity: "perm_of (identity n) = [0..<n]"
  by (simp add: perm_of_def identity_def comp_def map_idI)

lemma perm_of_swap:
  "perm_of (swap_cols j j2 Pm) = (perm_of Pm)[j := perm_of Pm ! j2, j2 := perm_of Pm ! j]"
  if "j < length (col Pm)" "j2 < length (col Pm)"
  using that by (simp add: perm_of_def swap_cols_def map_update)

lemma perm_cols_swap:
  assumes "perm_cols n Pm" "j < n" "j2 < n"
  shows "perm_cols n (swap_cols j j2 Pm)"
proof -
  have len: "length (col Pm) = n" "length (perm_of Pm) = n"
    using perm_cols_length[OF assms(1)] by (simp_all add: perm_of_def)
  have po: "perm_of (swap_cols j j2 Pm) = (perm_of Pm)[j := perm_of Pm ! j2, j2 := perm_of Pm ! j]"
    using assms len by (intro perm_of_swap) simp_all
  have "col (swap_cols j j2 Pm) = map (\<lambda>s. [(s, 1)]) (perm_of (swap_cols j j2 Pm))"
  proof -
    have "col Pm = map (\<lambda>s. [(s, 1)]) (perm_of Pm)" using assms(1) by (simp add: perm_cols_def)
    then have "col (swap_cols j j2 Pm) =
       (map (\<lambda>s. [(s, 1)]) (perm_of Pm))[j := map (\<lambda>s. [(s, 1)]) (perm_of Pm) ! j2,
          j2 := map (\<lambda>s. [(s, 1)]) (perm_of Pm) ! j]"
      by (simp add: swap_cols_def)
    also have "\<dots> = map (\<lambda>s. [(s, 1)]) ((perm_of Pm)[j := perm_of Pm ! j2, j2 := perm_of Pm ! j])"
      using assms len by (simp add: map_update)
    finally show ?thesis using po by simp
  qed
  moreover have "distinct (perm_of (swap_cols j j2 Pm))"
    using assms len by (simp add: po perm_cols_def distinct_swap)
  moreover have "set (perm_of (swap_cols j j2 Pm)) = {..<n}"
    using assms len by (simp add: po perm_cols_def set_swap)
  ultimately show ?thesis using assms(1) by (simp add: perm_cols_def)
qed

subsection \<open>The loop invariant: start, skipped row, swap\<close>

lemma leup_invD:
  assumes "leup_inv A i j F pivs coeff"
  shows "shape_inv A F" "piv_inv A i j F pivs coeff" "tri_inv F" "rec_inv A i j F pivs coeff"
  using assms by (simp_all add: leup_inv_def)

lemma shape_invD:
  assumes "shape_inv A F"
  shows "wf_mat A" "wf_mat (E F)" "nrow (E F) = nrow A" "ncol (E F) = ncol A"
    "wf_mat (L F)" "nrow (L F) = nrow A" "ncol (L F) = nrow A"
    "wf_mat (U F)" "nrow (U F) = ncol A" "ncol (U F) = ncol A" "perm_cols (ncol A) (P F)"
    "length (col (E F)) = ncol A" "length (col (L F)) = nrow A" "length (col (U F)) = ncol A"
    "length (col (P F)) = ncol A"
  using assms perm_cols_length[of "ncol A" "P F"]
  by (simp_all add: shape_inv_def wf_mat_len perm_of_def)

lemma piv_invD:
  assumes "piv_inv A i j F pivs coeff"
  shows "length pivs = j" "length coeff = j" "j \<le> ncol A" "i \<le> nrow A"
    "sorted_wrt (<) pivs" "\<And>r. r \<in> set pivs \<Longrightarrow> r < i"
    "fixed_cols (E F) pivs coeff"
    "\<And>c. j \<le> c \<Longrightarrow> c < ncol A \<Longrightarrow> col (U F) ! c = [(c, 1)]"
    "\<And>c r. j \<le> c \<Longrightarrow> c < ncol A \<Longrightarrow> r < i \<Longrightarrow> ent (E F) r c \<noteq> 0 \<Longrightarrow> r \<in> set pivs"
    "\<And>r. r < nrow A \<Longrightarrow> r \<notin> set pivs \<Longrightarrow> col (L F) ! r = [(r, 1)]"
  using assms by (simp_all add: piv_inv_def)

lemma fixed_colsD:
  "fixed_cols Em pivs coeff \<Longrightarrow> k < length pivs \<Longrightarrow>
   col Em ! k = [(pivs ! k, inverse (coeff ! k))] \<and> coeff ! k \<noteq> 0"
  by (simp add: fixed_cols_def)

lemma rec_invD:
  assumes "rec_inv A i j F pivs coeff"
  shows "\<And>c r. j \<le> c \<Longrightarrow> c < ncol A \<Longrightarrow> r < nrow A \<Longrightarrow>
        ent A r (perm_of (P F) ! c) =
          hist (L F) (E F) pivs r c + (if i \<le> r then ent (E F) r c else 0)"
    "\<And>c r. c < j \<Longrightarrow> r < nrow A \<Longrightarrow>
        ent A r (perm_of (P F) ! c) =
          (\<Sum>k<j. ent (U F) k c * inverse (coeff ! k) * ent (L F) r (pivs ! k))"
  using assms by (simp_all add: rec_inv_def)

lemma tri_identity:
  "is_lower (identity k)" "is_upper (identity k)" "unit_diagonal (identity k :: 'a::field ColumnMatrix)"
  by (simp_all add: is_lower_iff is_upper_iff unit_diagonal_iff ent_identity)

lemma leup_inv_init:
  assumes "wf_mat A"
  shows "leup_inv A 0 0 \<lparr>L = identity (nrow A), E = A, U = identity (ncol A), P = identity (ncol A)\<rparr> [] []"
proof -
  let ?F = "\<lparr>L = identity (nrow A), E = A, U = identity (ncol A), P = identity (ncol A)\<rparr>"
  have "shape_inv A ?F" using assms by (simp add: shape_inv_def perm_cols_identity)
  moreover have "piv_inv A 0 0 ?F [] []" by (simp add: piv_inv_def fixed_cols_def)
  moreover have "tri_inv ?F" by (simp add: tri_inv_def tri_identity)
  moreover have "rec_inv A 0 0 ?F [] []" by (simp add: rec_inv_def hist_def perm_of_identity)
  ultimately show ?thesis by (simp add: leup_inv_def)
qed

lemma leup_inv_skip:
  assumes inv: "leup_inv A i j F pivs coeff" and i: "i < nrow A"
    and z: "\<And>c. j \<le> c \<Longrightarrow> c < ncol A \<Longrightarrow> ent (E F) i c = 0"
  shows "leup_inv A (Suc i) j F pivs coeff"
proof -
  note p = piv_invD[OF leup_invD(2)[OF inv]]
  note r = rec_invD[OF leup_invD(4)[OF inv]]
  have "piv_inv A (Suc i) j F pivs coeff"
    unfolding piv_inv_def
  proof (intro conjI allI impI ballI)
    fix r assume "r \<in> set pivs" then show "r < Suc i" using p(6)[of r] by simp
  next
    fix c r assume a: "j \<le> c \<and> c < ncol A \<and> r < Suc i \<and> ent (E F) r c \<noteq> 0"
    then have "r \<noteq> i" using z[of c] by auto
    with a show "r \<in> set pivs" using p(9)[of c r] by simp
  qed (use p i in simp_all)
  moreover have "rec_inv A (Suc i) j F pivs coeff"
    unfolding rec_inv_def
  proof (intro conjI allI impI)
    fix c r assume a: "j \<le> c \<and> c < ncol A \<and> r < nrow A"
    have "(if Suc i \<le> r then ent (E F) r c else 0) = (if i \<le> r then ent (E F) r c else 0)"
      using z[of c] a by (cases "r = i") auto
    then show "ent A r (perm_of (P F) ! c) =
          hist (L F) (E F) pivs r c + (if Suc i \<le> r then ent (E F) r c else 0)"
      using r(1)[of c r] a by simp
  next
    fix c r assume "c < j \<and> r < nrow A"
    then show "ent A r (perm_of (P F) ! c) =
          (\<Sum>k<j. ent (U F) k c * inverse (coeff ! k) * ent (L F) r (pivs ! k))"
      using r(2)[of c r] by simp
  qed
  ultimately show ?thesis using leup_invD(1,3)[OF inv] by (simp add: leup_inv_def)
qed

lemma leup_inv_swap:
  assumes inv: "leup_inv A i j F pivs coeff" and j: "j < ncol A" "j \<le> j2" "j2 < ncol A"
  shows "leup_inv A i j (F\<lparr>E := swap_cols j j2 (E F), P := swap_cols j j2 (P F)\<rparr>) pivs coeff"
proof -
  note s = shape_invD[OF leup_invD(1)[OF inv]]
  note p = piv_invD[OF leup_invD(2)[OF inv]]
  note r = rec_invD[OF leup_invD(4)[OF inv]]
  let ?F = "F\<lparr>E := swap_cols j j2 (E F), P := swap_cols j j2 (P F)\<rparr>"
  define sw where "sw c = (if c = j2 then j else if c = j then j2 else c)" for c
  have sw: "\<And>c. j \<le> c \<Longrightarrow> c < ncol A \<Longrightarrow> j \<le> sw c \<and> sw c < ncol A"
    "\<And>c. c < j \<Longrightarrow> sw c = c"
    using j by (auto simp: sw_def)
  have cE: "col (swap_cols j j2 (E F)) ! c = col (E F) ! sw c" for c
    using j s(12) by (simp add: col_swap_cols sw_def)
  have eE: "ent (swap_cols j j2 (E F)) r c = ent (E F) r (sw c)" for r c
    by (simp only: ent_def cE)
  have po: "perm_of (swap_cols j j2 (P F)) ! c = perm_of (P F) ! sw c" if "c < ncol A" for c
    using j s(15) that perm_cols_length[OF s(11)]
    by (simp add: perm_of_swap nth_list_update sw_def)
  have hi: "hist (L F) (swap_cols j j2 (E F)) pivs r c = hist (L F) (E F) pivs r (sw c)" for r c
    by (simp add: hist_def eE)
  have "shape_inv A ?F"
    using s j by (simp add: shape_inv_def wf_swap_cols perm_cols_swap)
  moreover have "piv_inv A i j ?F pivs coeff"
    unfolding piv_inv_def
  proof (intro conjI allI impI ballI)
    show "fixed_cols (E ?F) pivs coeff"
      using p(7) p(1) sw(2) by (simp add: fixed_cols_def cE)
  next
    fix c r assume a: "j \<le> c \<and> c < ncol A \<and> r < i \<and> ent (E ?F) r c \<noteq> 0"
    then show "r \<in> set pivs" using p(9)[of "sw c" r] sw(1)[of c] by (simp add: eE)
  qed (use p in simp_all)
  moreover have "tri_inv ?F" using leup_invD(3)[OF inv] by (simp add: tri_inv_def)
  moreover have "rec_inv A i j ?F pivs coeff"
    unfolding rec_inv_def
  proof (intro conjI allI impI)
    fix c r assume a: "j \<le> c \<and> c < ncol A \<and> r < nrow A"
    then show "ent A r (perm_of (P ?F) ! c) =
          hist (L ?F) (E ?F) pivs r c + (if i \<le> r then ent (E ?F) r c else 0)"
      using r(1)[of "sw c" r] sw(1)[of c] by (simp add: po hi eE)
  next
    fix c r assume a: "c < j \<and> r < nrow A"
    then have "c < ncol A" using j by simp
    with a show "ent A r (perm_of (P ?F) ! c) =
          (\<Sum>k<j. ent (U ?F) k c * inverse (coeff ! k) * ent (L ?F) r (pivs ! k))"
      using r(2)[of c r] sw(2)[of c] by (simp add: po)
  qed
  ultimately show ?thesis by (simp add: leup_inv_def)
qed

subsection \<open>The loop invariant through a pivot step\<close>

lemma stored_entry_le:
  assumes "wf_vec m v" "\<And>r. r < k \<Longrightarrow> getval v r = 0" "p \<in> set v"
  shows "k \<le> fst p"
proof (rule ccontr)
  assume "\<not> k \<le> fst p"
  then have "getval v (fst p) = 0" using assms(2) by simp
  with getval_in[OF assms(1,3)] wf_vec_nz[OF assms(1,3)] show False by simp
qed

lemma stored_entry_ge:
  assumes "wf_vec m v" "\<And>r. k < r \<Longrightarrow> getval v r = 0" "p \<in> set v"
  shows "fst p \<le> k"
proof (rule ccontr)
  assume "\<not> fst p \<le> k"
  then have "getval v (fst p) = 0" using assms(2) by simp
  with getval_in[OF assms(1,3)] wf_vec_nz[OF assms(1,3)] show False by simp
qed

lemma leup_inv_pivot_shape:
  assumes inv: "leup_inv A i j F pivs coeff"
    and E4: "wf_mat E4" "nrow E4 = nrow A" "ncol E4 = ncol A"
    and L4: "wf_mat L4" "nrow L4 = nrow A" "ncol L4 = nrow A"
    and U2: "wf_mat U2" "nrow U2 = ncol A" "ncol U2 = ncol A"
  shows "shape_inv A (F\<lparr>L := L4, E := E4, U := U2\<rparr>)"
  using shape_invD[OF leup_invD(1)[OF inv]] E4 L4 U2 by (simp add: shape_inv_def)

lemma leup_inv_pivot_piv:
  assumes inv: "leup_inv A i j F pivs coeff" and ij: "i < nrow A" "j < ncol A" and a: "a \<noteq> 0"
    and E4: "col E4 ! j = [(i, a)]" "\<And>c. c < j \<Longrightarrow> col E4 ! c = col (E F) ! c"
      "\<And>c r. j < c \<Longrightarrow> c < ncol A \<Longrightarrow> r < i \<Longrightarrow> ent E4 r c = ent (E F) r c"
    and L4: "\<And>r. r \<noteq> i \<Longrightarrow> col L4 ! r = col (L F) ! r"
    and U2: "\<And>c. c \<noteq> j \<Longrightarrow> col U2 ! c = col (U F) ! c"
  shows "piv_inv A (Suc i) (Suc j) (F\<lparr>L := L4, E := E4, U := U2\<rparr>) (pivs @ [i]) (coeff @ [inverse a])"
proof -
  note p = piv_invD[OF leup_invD(2)[OF inv]]
  have fc: "fixed_cols E4 (pivs @ [i]) (coeff @ [inverse a])"
    unfolding fixed_cols_def
  proof (intro allI impI)
    fix k assume "k < length (pivs @ [i])"
    then consider "k < j" | "k = j" using p(1) by force
    then show "col E4 ! k = [((pivs @ [i]) ! k, inverse ((coeff @ [inverse a]) ! k))] \<and>
               (coeff @ [inverse a]) ! k \<noteq> 0"
    proof cases
      case 1
      then show ?thesis
        using fixed_colsD[OF p(7), of k] p(1,2) E4(2)[of k] by (simp add: nth_append)
    next
      case 2
      then show ?thesis using p(1,2) E4(1) a by (simp add: nth_append)
    qed
  qed
  have srt: "sorted_wrt (<) (pivs @ [i])"
    using p(5,6) by (simp add: sorted_wrt_append)
  have hr: "r \<in> set (pivs @ [i])"
    if "Suc j \<le> c \<and> c < ncol A \<and> r < Suc i \<and> ent E4 r c \<noteq> 0" for c r
  proof (cases "r = i")
    case False
    with that have "r < i" "j < c" by simp_all
    with that E4(3)[of c r] have "ent (E F) r c \<noteq> 0" by simp
    with p(9)[of c r] that \<open>r < i\<close> show ?thesis by simp
  qed simp
  show ?thesis
    unfolding piv_inv_def
  proof (intro conjI allI impI ballI)
    show "fixed_cols (E (F\<lparr>L := L4, E := E4, U := U2\<rparr>)) (pivs @ [i]) (coeff @ [inverse a])"
      using fc by simp
    show "sorted_wrt (<) (pivs @ [i])" by (rule srt)
  next
    fix r assume "r \<in> set (pivs @ [i])"
    then show "r < Suc i" using p(6)[of r] by auto
  next
    fix c assume "Suc j \<le> c \<and> c < ncol A"
    then show "col (U (F\<lparr>L := L4, E := E4, U := U2\<rparr>)) ! c = [(c, 1)]"
      using U2[of c] p(8)[of c] by simp
  next
    fix c r
    assume "Suc j \<le> c \<and> c < ncol A \<and> r < Suc i \<and> ent (E (F\<lparr>L := L4, E := E4, U := U2\<rparr>)) r c \<noteq> 0"
    then show "r \<in> set (pivs @ [i])" using hr[of c r] by simp
  next
    fix r assume "r < nrow A" "r \<notin> set (pivs @ [i])"
    then show "col (L (F\<lparr>L := L4, E := E4, U := U2\<rparr>)) ! r = [(r, 1)]"
      using L4[of r] p(10)[of r] by simp
  qed (use p ij in simp_all)
qed

lemma leup_inv_pivot_tri:
  assumes inv: "leup_inv A i j F pivs coeff" and ij: "i < nrow A" "j < ncol A"
    and L4: "wf_mat L4" "nrow L4 = nrow A" "ncol L4 = nrow A"
      "\<And>r. r \<noteq> i \<Longrightarrow> col L4 ! r = col (L F) ! r"
      "\<And>r. ent L4 r i = (if r = i then 1 else if i < r then x r else 0)"
    and U2: "wf_mat U2" "nrow U2 = ncol A" "ncol U2 = ncol A"
      "\<And>c. c \<noteq> j \<Longrightarrow> col U2 ! c = col (U F) ! c"
      "\<And>k. ent U2 k j = (if k = j then 1 else if k < j then y k else 0)"
  shows "tri_inv (F\<lparr>L := L4, E := E4, U := U2\<rparr>)"
proof -
  note s = shape_invD[OF leup_invD(1)[OF inv]]
  have t: "is_lower (L F)" "unit_diagonal (L F)" "is_upper (U F)" "unit_diagonal (U F)"
    using leup_invD(3)[OF inv] by (simp_all add: tri_inv_def)
  have lenL: "length (col L4) = nrow A" and lenU: "length (col U2) = ncol A"
    using L4(1,3) U2(1,3) by (simp_all add: wf_mat_len)
  have "is_lower L4"
    unfolding is_lower_iff
  proof (intro allI impI ballI)
    fix c p assume c: "c < length (col L4)" and pm: "p \<in> set (col L4 ! c)"
    show "c \<le> fst p"
    proof (cases "c = i")
      case True
      have "wf_vec (nrow L4) (col L4 ! i)" using L4(1,3) ij by (intro wf_matD) simp_all
      moreover have "\<And>r. r < i \<Longrightarrow> getval (col L4 ! i) r = 0"
        using L4(5) by (simp add: ent_def)
      ultimately show ?thesis using pm True by (intro stored_entry_le[where v = "col L4 ! i"]) simp_all
    next
      case False
      with t(1) c pm L4(4)[of c] s(13) lenL show ?thesis by (simp add: is_lower_iff)
    qed
  qed
  moreover have "unit_diagonal L4"
    unfolding unit_diagonal_iff
  proof (intro conjI allI impI)
    fix c assume "c < length (col L4)"
    then show "ent L4 c c = 1"
      using L4(4)[of c] L4(5)[of i] t(2) s(13) lenL
      by (cases "c = i") (simp_all add: unit_diagonal_iff ent_def)
  qed (use L4 in simp)
  moreover have "is_upper U2"
    unfolding is_upper_iff
  proof (intro allI impI ballI)
    fix c p assume c: "c < length (col U2)" and pm: "p \<in> set (col U2 ! c)"
    show "fst p \<le> c"
    proof (cases "c = j")
      case True
      have "wf_vec (nrow U2) (col U2 ! j)" using U2(1,3) ij by (intro wf_matD) simp_all
      moreover have "\<And>r. j < r \<Longrightarrow> getval (col U2 ! j) r = 0"
        using U2(5) by (simp add: ent_def)
      ultimately show ?thesis using pm True by (intro stored_entry_ge[where v = "col U2 ! j"]) simp_all
    next
      case False
      with t(3) c pm U2(4)[of c] s(14) lenU show ?thesis by (simp add: is_upper_iff)
    qed
  qed
  moreover have "unit_diagonal U2"
    unfolding unit_diagonal_iff
  proof (intro conjI allI impI)
    fix c assume "c < length (col U2)"
    then show "ent U2 c c = 1"
      using U2(4)[of c] U2(5)[of j] t(4) s(14) lenU
      by (cases "c = j") (simp_all add: unit_diagonal_iff ent_def)
  qed (use U2 in simp)
  ultimately show ?thesis by (simp add: tri_inv_def)
qed

lemma leup_inv_pivot_rec:
  assumes inv: "leup_inv A i j F pivs coeff" and ij: "i < nrow A" "j < ncol A"
    and a: "a \<noteq> 0" "a = ent (E F) i j"
    and E4: "\<And>c r. j < c \<Longrightarrow> c < ncol A \<Longrightarrow>
        ent E4 r c = ent (E F) r c - (if i < r then ent (E F) i c / a * ent (E F) r j else 0)"
    and L4: "\<And>r. r \<noteq> i \<Longrightarrow> col L4 ! r = col (L F) ! r"
      "\<And>r. ent L4 r i = (if r = i then 1 else if i < r then inverse a * ent (E F) r j else 0)"
    and U2: "\<And>c. c \<noteq> j \<Longrightarrow> col U2 ! c = col (U F) ! c"
      "\<And>k. ent U2 k j = (if k = j then 1 else if k < j then coeff ! k * ent (E F) (pivs ! k) j else 0)"
  shows "rec_inv A (Suc i) (Suc j) (F\<lparr>L := L4, E := E4, U := U2\<rparr>) (pivs @ [i]) (coeff @ [inverse a])"
proof -
  note s = shape_invD[OF leup_invD(1)[OF inv]]
  note p = piv_invD[OF leup_invD(2)[OF inv]]
  note r = rec_invD[OF leup_invD(4)[OF inv]]
  have up: "is_upper (U F)" using leup_invD(3)[OF inv] by (simp add: tri_inv_def)
  have pk: "pivs ! k < i" if "k < j" for k
    using p(6)[of "pivs ! k"] p(1) that by simp
  have Lk: "ent L4 r (pivs ! k) = ent (L F) r (pivs ! k)" if "k < j" for k r
    using L4(1)[of "pivs ! k"] pk[OF that] by (simp add: ent_def)
  have Ek: "ent E4 (pivs ! k) c = ent (E F) (pivs ! k) c" if "k < j" "j < c" "c < ncol A" for k c
    using E4[of c "pivs ! k"] pk[OF that(1)] that by simp
  have Ei: "ent E4 i c = ent (E F) i c" if "j < c" "c < ncol A" for c
    using E4[of c i] that by simp
  have ck: "coeff ! k \<noteq> 0" if "k < j" for k
    using fixed_colsD[OF p(7), of k] p(1) that by simp
  have h1: "hist L4 E4 (pivs @ [i]) r c = hist (L F) (E F) pivs r c + ent (E F) i c * ent L4 r i"
    if "j < c" "c < ncol A" for r c
  proof -
    have "hist L4 E4 (pivs @ [i]) r c =
          (\<Sum>k<j. ent E4 ((pivs @ [i]) ! k) c * ent L4 r ((pivs @ [i]) ! k)) +
          ent E4 ((pivs @ [i]) ! j) c * ent L4 r ((pivs @ [i]) ! j)"
      using p(1) by (simp add: hist_def)
    also have "(\<Sum>k<j. ent E4 ((pivs @ [i]) ! k) c * ent L4 r ((pivs @ [i]) ! k)) =
          (\<Sum>k<j. ent (E F) (pivs ! k) c * ent (L F) r (pivs ! k))"
      using p(1) that by (intro sum.cong) (simp_all add: nth_append Lk Ek)
    also have "ent E4 ((pivs @ [i]) ! j) c * ent L4 r ((pivs @ [i]) ! j) = ent (E F) i c * ent L4 r i"
      using p(1) that by (simp add: nth_append Ei)
    finally show ?thesis using p(1) by (simp add: hist_def)
  qed
  have unfixed: "ent A r (perm_of (P F) ! c) =
      hist L4 E4 (pivs @ [i]) r c + (if Suc i \<le> r then ent E4 r c else 0)"
    if "Suc j \<le> c \<and> c < ncol A \<and> r < nrow A" for c r
  proof -
    have c: "j < c" "c < ncol A" "j \<le> c" "r < nrow A" using that by simp_all
    have old: "ent A r (perm_of (P F) ! c) =
          hist (L F) (E F) pivs r c + (if i \<le> r then ent (E F) r c else 0)"
      using r(1)[OF c(3,2,4)] .
    consider "r < i" | "r = i" | "i < r" by linarith
    then show ?thesis
    proof cases
      case 1
      then show ?thesis using old h1[OF c(1,2), of r] L4(2)[of r] by simp
    next
      case 2
      then show ?thesis using old h1[OF c(1,2), of r] L4(2)[of r] by simp
    next
      case 3
      then show ?thesis
        using old h1[OF c(1,2), of r] L4(2)[of r] E4[OF c(1,2), of r] a(1)
        by (simp add: divide_inverse algebra_simps)
    qed
  qed
  have fixed_old: "ent A r (perm_of (P F) ! c) =
      (\<Sum>k<Suc j. ent U2 k c * inverse ((coeff @ [inverse a]) ! k) * ent L4 r ((pivs @ [i]) ! k))"
    if "c < j" "r < nrow A" for c r
  proof -
    have "ent U2 j c = 0"
      using U2(1)[of c] that(1) is_upper_ent[OF up, of c j] s(14) ij by (simp add: ent_def)
    then have "(\<Sum>k<Suc j. ent U2 k c * inverse ((coeff @ [inverse a]) ! k) * ent L4 r ((pivs @ [i]) ! k)) =
          (\<Sum>k<j. ent U2 k c * inverse ((coeff @ [inverse a]) ! k) * ent L4 r ((pivs @ [i]) ! k))"
      by simp
    also have "\<dots> = (\<Sum>k<j. ent (U F) k c * inverse (coeff ! k) * ent (L F) r (pivs ! k))"
    proof -
      have Uc: "ent U2 k c = ent (U F) k c" for k
        using U2(1)[of c] that(1) by (simp add: ent_def)
      show ?thesis using p(1,2) by (intro sum.cong) (simp_all add: nth_append Lk Uc)
    qed
    finally show ?thesis using r(2)[OF that] by simp
  qed
  have fixed_new: "ent A r (perm_of (P F) ! j) =
      (\<Sum>k<Suc j. ent U2 k j * inverse ((coeff @ [inverse a]) ! k) * ent L4 r ((pivs @ [i]) ! k))"
    if "r < nrow A" for r
  proof -
    have old: "ent A r (perm_of (P F) ! j) =
          hist (L F) (E F) pivs r j + (if i \<le> r then ent (E F) r j else 0)"
      using r(1)[of j r] ij that by simp
    have "(\<Sum>k<j. ent U2 k j * inverse ((coeff @ [inverse a]) ! k) * ent L4 r ((pivs @ [i]) ! k)) =
          (\<Sum>k<j. ent (E F) (pivs ! k) j * ent (L F) r (pivs ! k))"
      using p(1,2) ck by (intro sum.cong) (simp_all add: nth_append Lk U2(2))
    then have "(\<Sum>k<Suc j. ent U2 k j * inverse ((coeff @ [inverse a]) ! k) * ent L4 r ((pivs @ [i]) ! k)) =
          hist (L F) (E F) pivs r j + a * ent L4 r i"
      using p(1,2) by (simp add: hist_def nth_append U2(2))
    moreover have "a * ent L4 r i = (if i \<le> r then ent (E F) r j else 0)"
      using L4(2)[of r] a by (cases "r = i") auto
    ultimately show ?thesis using old by simp
  qed
  show ?thesis
    unfolding rec_inv_def
  proof (intro conjI allI impI)
    fix c r assume "Suc j \<le> c \<and> c < ncol A \<and> r < nrow A"
    from unfixed[OF this]
    show "ent A r (perm_of (P (F\<lparr>L := L4, E := E4, U := U2\<rparr>)) ! c) =
          hist (L (F\<lparr>L := L4, E := E4, U := U2\<rparr>)) (E (F\<lparr>L := L4, E := E4, U := U2\<rparr>))
            (pivs @ [i]) r c +
          (if Suc i \<le> r then ent (E (F\<lparr>L := L4, E := E4, U := U2\<rparr>)) r c else 0)"
      by simp
  next
    fix c r assume cr: "c < Suc j \<and> r < nrow A"
    show "ent A r (perm_of (P (F\<lparr>L := L4, E := E4, U := U2\<rparr>)) ! c) =
          (\<Sum>k<Suc j. ent (U (F\<lparr>L := L4, E := E4, U := U2\<rparr>)) k c *
             inverse ((coeff @ [inverse a]) ! k) *
             ent (L (F\<lparr>L := L4, E := E4, U := U2\<rparr>)) r ((pivs @ [i]) ! k))"
    proof (cases "c = j")
      case True
      then show ?thesis using fixed_new[of r] cr by simp
    next
      case False
      then show ?thesis using fixed_old[of c r] cr by simp
    qed
  qed
qed

lemma leup_inv_pivot:
  assumes inv: "leup_inv A i j F pivs coeff" and ij: "i < nrow A" "j < ncol A"
    and a: "a \<noteq> 0" "a = ent (E F) i j"
    and E4: "wf_mat E4" "nrow E4 = nrow A" "ncol E4 = ncol A"
      "col E4 ! j = [(i, a)]" "\<And>c. c < j \<Longrightarrow> col E4 ! c = col (E F) ! c"
      "\<And>c r. j < c \<Longrightarrow> c < ncol A \<Longrightarrow>
        ent E4 r c = ent (E F) r c - (if i < r then ent (E F) i c / a * ent (E F) r j else 0)"
    and L4: "wf_mat L4" "nrow L4 = nrow A" "ncol L4 = nrow A"
      "\<And>r. r \<noteq> i \<Longrightarrow> col L4 ! r = col (L F) ! r"
      "\<And>r. ent L4 r i = (if r = i then 1 else if i < r then inverse a * ent (E F) r j else 0)"
    and U2: "wf_mat U2" "nrow U2 = ncol A" "ncol U2 = ncol A"
      "\<And>c. c \<noteq> j \<Longrightarrow> col U2 ! c = col (U F) ! c"
      "\<And>k. ent U2 k j = (if k = j then 1 else if k < j then coeff ! k * ent (E F) (pivs ! k) j else 0)"
  shows "leup_inv A (Suc i) (Suc j) (F\<lparr>L := L4, E := E4, U := U2\<rparr>) (pivs @ [i]) (coeff @ [inverse a])"
proof -
  have "ent E4 r c = ent (E F) r c" if "j < c" "c < ncol A" "r < i" for c r
    using E4(6)[OF that(1,2), of r] that(3) by simp
  then have "piv_inv A (Suc i) (Suc j) (F\<lparr>L := L4, E := E4, U := U2\<rparr>) (pivs @ [i]) (coeff @ [inverse a])"
    using inv ij a(1) E4(4,5) L4(4) U2(4) by (intro leup_inv_pivot_piv) simp_all
  moreover have "shape_inv A (F\<lparr>L := L4, E := E4, U := U2\<rparr>)"
    using inv E4(1-3) L4(1-3) U2(1-3) by (rule leup_inv_pivot_shape)
  moreover have "tri_inv (F\<lparr>L := L4, E := E4, U := U2\<rparr>)"
    using inv ij L4 U2 by (rule leup_inv_pivot_tri)
  moreover have "rec_inv A (Suc i) (Suc j) (F\<lparr>L := L4, E := E4, U := U2\<rparr>) (pivs @ [i]) (coeff @ [inverse a])"
    using inv ij a E4(6) L4(4,5) U2(4,5) by (rule leup_inv_pivot_rec)
  ultimately show ?thesis by (simp add: leup_inv_def)
qed

lemma pm_midD:
  assumes "pm_mid Em p i j"
  shows "piv_row (col Em ! j) i = Some i" "distinct (tl (bucket p i))"
    "set (tl (bucket p i)) = {c. j < c \<and> c < ncol Em \<and> piv_row (col Em ! c) i = Some i}"
  using assms by (simp_all add: pm_mid_def)

lemma pivot_core:
  fixes A :: "'a::field ColumnMatrix"
  assumes inv: "leup_inv A i j F pivs coeff" and mid: "pm_mid (E F) p1 i j"
    and ij: "i < nrow A" "j < ncol A"
  defines "a \<equiv> ent (E F) i j"
  defines "s3 \<equiv> fold (schur_col (nrow A) i j a) (tl (bucket p1 i)) (E F, p1)"
  defines "E4 \<equiv> (fst s3)\<lparr>col := (col (fst s3))[j := [(i, a)]]\<rparr>"
  defines "L4 \<equiv> (L F)\<lparr>col := (col (L F))[i := axpy (inverse a) (col (fst s3) ! j) (Suc i) (nrow A) (col (L F) ! i)]\<rparr>"
  defines "U2 \<equiv> (U F)\<lparr>col := (col (U F))[j := axpy_pivs (col (E F) ! j) coeff pivs (col (U F) ! j)]\<rparr>"
  shows "a \<noteq> 0"
    and "leup_inv A (Suc i) (Suc j) (F\<lparr>L := L4, E := E4, U := U2\<rparr>) (pivs @ [i]) (coeff @ [inverse a])"
    and "pm_inv E4 ((snd s3)(i := None)) (Suc i) (Suc j)"
proof -
  note s = shape_invD[OF leup_invD(1)[OF inv]]
  note p = piv_invD[OF leup_invD(2)[OF inv]]
  note md = pm_midD[OF mid]
  define rest where "rest = tl (bucket p1 i)"
  have wfE: "\<And>c. c < ncol A \<Longrightarrow> wf_vec (nrow A) (col (E F) ! c)"
    using wf_matD[OF s(2)] s(3,4) by simp
  have wj: "wf_vec (nrow A) (col (E F) ! j)" using wfE ij by simp
  show a0: "a \<noteq> 0"
    using piv_row_SomeD[OF wj md(1)] by (simp add: a_def ent_def)
  have rest: "distinct rest" "j \<notin> set rest" "\<forall>c\<in>set rest. c < length (col (E F))"
    "\<And>c. c \<in> set rest \<Longrightarrow> j < c \<and> c < ncol A"
    using md(2,3) s(4,12) by (auto simp: rest_def)
  from schur_fold[OF rest(1-3), of "nrow A" i a p1]
  obtain E3 p3 where
    f: "fold (schur_col (nrow A) i j a) rest (E F, p1) = (E3, p3)"
    and d: "nrow E3 = nrow A" "ncol E3 = ncol A" "length (col E3) = ncol A"
    and c3: "\<And>c. col E3 ! c = (if c \<in> set rest
          then axpy (- (ent (E F) i c / a)) (col (E F) ! j) (Suc i) (nrow A) (col (E F) ! c)
          else col (E F) ! c)"
    and b3: "\<And>r. bucket p3 r = bucket p1 r @ filter (\<lambda>c. piv_row (col E3 ! c) (Suc i) = Some r) rest"
    and n3: "\<And>r. p1 r \<noteq> Some [] \<Longrightarrow> p3 r \<noteq> Some []"
    using s(3,4,12) by auto
  have s3: "fst s3 = E3" "snd s3 = p3" using f by (simp_all add: s3_def rest_def)
  have E4d: "E4 = E3\<lparr>col := (col E3)[j := [(i, a)]]\<rparr>" by (simp add: E4_def s3)
  have e3j: "col E3 ! j = col (E F) ! j" using c3[of j] rest(2) by simp
  have zero_i: "ent (E F) i c = 0" if "c \<noteq> j" "c < ncol A" "c \<notin> set rest" for c
  proof (cases "c < j")
    case True
    then have "col (E F) ! c = [(pivs ! c, inverse (coeff ! c))]" "pivs ! c < i"
      using fixed_colsD[OF p(7), of c] p(1) p(6)[of "pivs ! c"] by simp_all
    then show ?thesis by (simp add: ent_def getval_Cons)
  next
    case False
    with that have "j < c" by simp
    with that md(3) have "piv_row (col (E F) ! c) i \<noteq> Some i" using s(4) by (simp add: rest_def)
    then show ?thesis using piv_row_at[OF wfE[OF that(2)], of i] by (auto simp: ent_def)
  qed
  have e3wf: "wf_vec (nrow A) (col E3 ! c)" if "c < ncol A" for c
    using c3[of c] wfE[OF that] wj by (simp add: wf_axpy)
  have e3ent: "ent E3 r c = ent (E F) r c - (if i < r then ent (E F) i c / a * ent (E F) r j else 0)"
    if "c \<noteq> j" "c < ncol A" for c r
  proof (cases "c \<in> set rest")
    case True
    have "getval (col (E F) ! j) r = 0" if "\<not> r < nrow A"
      using getval_ge[OF wj, of r] that by simp
    then show ?thesis
      using True c3[of c] getval_axpy[OF wj wfE[OF that(2)], of "- (ent (E F) i c / a)" "Suc i" "nrow A" r]
      by (auto simp: ent_def)
  next
    case False
    then show ?thesis using c3[of c] zero_i[OF that False] by (simp add: ent_def)
  qed
  have E4f: "wf_mat E4" "nrow E4 = nrow A" "ncol E4 = ncol A" "col E4 ! j = [(i, a)]"
    "\<And>c. c \<noteq> j \<Longrightarrow> col E4 ! c = col E3 ! c"
  proof -
    show "nrow E4 = nrow A" "ncol E4 = ncol A" using d by (simp_all add: E4d)
    show "col E4 ! j = [(i, a)]" using d ij by (simp add: E4d)
    show "\<And>c. c \<noteq> j \<Longrightarrow> col E4 ! c = col E3 ! c" by (simp add: E4d)
    show "wf_mat E4"
    proof (rule wf_matI)
      show "length (col E4) = ncol E4" using d by (simp add: E4d)
      fix c assume "c < ncol E4"
      then have c: "c < ncol A" using d by (simp add: E4d)
      show "wf_vec (nrow E4) (col E4 ! c)"
        using e3wf[OF c] d ij a0 c by (cases "c = j") (simp_all add: E4d wf_vec_Cons)
    qed
  qed
  have E4c: "col E4 ! c = col (E F) ! c" if "c < j" for c
    using E4f(5)[of c] c3[of c] rest(4)[of c] that by auto
  have E4e: "ent E4 r c = ent (E F) r c - (if i < r then ent (E F) i c / a * ent (E F) r j else 0)"
    if "j < c" "c < ncol A" for c r
    using e3ent[of c r] E4f(5)[of c] that by (simp add: ent_def)
  have li: "col (L F) ! i = [(i, 1)]"
    using p(10)[of i] p(6)[of i] ij by auto
  have wli: "wf_vec (nrow A) [(i, 1 :: 'a)]" using ij by (simp add: wf_vec_Cons)
  have L4d: "L4 = (L F)\<lparr>col := (col (L F))[i := axpy (inverse a) (col (E F) ! j) (Suc i) (nrow A) [(i, 1)]]\<rparr>"
    by (simp add: L4_def s3 e3j li)
  have L4f: "wf_mat L4" "nrow L4 = nrow A" "ncol L4 = nrow A"
    "\<And>r. r \<noteq> i \<Longrightarrow> col L4 ! r = col (L F) ! r"
    "\<And>r. ent L4 r i = (if r = i then 1 else if i < r then inverse a * ent (E F) r j else 0)"
  proof -
    show "nrow L4 = nrow A" "ncol L4 = nrow A" using s by (simp_all add: L4d)
    show "\<And>r. r \<noteq> i \<Longrightarrow> col L4 ! r = col (L F) ! r" by (simp add: L4d)
    show "wf_mat L4"
    proof (rule wf_matI)
      show "length (col L4) = ncol L4" using s by (simp add: L4d)
      fix c assume "c < ncol L4"
      then have c: "c < nrow A" using s by (simp add: L4d)
      show "wf_vec (nrow L4) (col L4 ! c)"
        using wf_matD[OF s(5), of c] s(6,7,13) c wf_axpy[OF wj wli]
        by (cases "c = i") (simp_all add: L4d)
    qed
    fix r
    have "getval (col (E F) ! j) r = 0" if "\<not> r < nrow A"
      using getval_ge[OF wj, of r] that by simp
    then show "ent L4 r i = (if r = i then 1 else if i < r then inverse a * ent (E F) r j else 0)"
      using getval_axpy[OF wj wli, of "inverse a" "Suc i" "nrow A" r] s(13) ij
      by (auto simp: L4d ent_def getval_Cons)
  qed
  have uj: "col (U F) ! j = [(j, 1)]" using p(8)[of j] ij by simp
  have wuj: "wf_vec (ncol A) [(j, 1 :: 'a)]" using ij by (simp add: wf_vec_Cons)
  have lp: "length pivs \<le> ncol A" using p(1,3) by simp
  have U2d: "U2 = (U F)\<lparr>col := (col (U F))[j := axpy_pivs (col (E F) ! j) coeff pivs [(j, 1)]]\<rparr>"
    by (simp add: U2_def uj)
  have U2f: "wf_mat U2" "nrow U2 = ncol A" "ncol U2 = ncol A"
    "\<And>c. c \<noteq> j \<Longrightarrow> col U2 ! c = col (U F) ! c"
    "\<And>k. ent U2 k j = (if k = j then 1 else if k < j then coeff ! k * ent (E F) (pivs ! k) j else 0)"
  proof -
    show "nrow U2 = ncol A" "ncol U2 = ncol A" using s by (simp_all add: U2d)
    show "\<And>c. c \<noteq> j \<Longrightarrow> col U2 ! c = col (U F) ! c" by (simp add: U2d)
    show "wf_mat U2"
    proof (rule wf_matI)
      show "length (col U2) = ncol U2" using s by (simp add: U2d)
      fix c assume "c < ncol U2"
      then have c: "c < ncol A" using s by (simp add: U2d)
      show "wf_vec (nrow U2) (col U2 ! c)"
        using wf_matD[OF s(8), of c] s(9,10,14) c wf_axpy_pivs[OF wuj lp]
        by (cases "c = j") (simp_all add: U2d)
    qed
    fix k
    show "ent U2 k j = (if k = j then 1 else if k < j then coeff ! k * ent (E F) (pivs ! k) j else 0)"
      using getval_axpy_pivs[OF wuj lp, of "col (E F) ! j" coeff k] s(14) ij p(1)
      by (auto simp: U2d ent_def getval_Cons)
  qed
  show "leup_inv A (Suc i) (Suc j) (F\<lparr>L := L4, E := E4, U := U2\<rparr>) (pivs @ [i]) (coeff @ [inverse a])"
    using inv ij a0 _ E4f(1-4) E4c E4e L4f U2f
    by (rule leup_inv_pivot) (simp add: a_def)
  have k1: "\<And>c. col E3 ! c = (if c \<in> set (tl (bucket p1 i))
        then axpy (- (ent (E F) i c / a)) (col (E F) ! j) (Suc i) (nrow A) (col (E F) ! c)
        else col (E F) ! c)"
    using c3 by (simp add: rest_def)
  have k2: "\<And>r. bucket p3 r = bucket p1 r @
        filter (\<lambda>c. piv_row (col E3 ! c) (Suc i) = Some r) (tl (bucket p1 i))"
    using b3 by (simp add: rest_def)
  have k3: "ncol E4 = ncol (E F)" using E4f(3) s(4) by simp
  have "pm_inv E4 (p3(i := None)) (Suc i) (Suc j)"
    using mid s(2) k1 k2 n3 k3 E4f(5)
    by (rule pm_inv_after[of "E F" p1 i j E3
          "\<lambda>c. axpy (- (ent (E F) i c / a)) (col (E F) ! j) (Suc i) (nrow A) (col (E F) ! c)" p3 E4])
  then show "pm_inv E4 ((snd s3)(i := None)) (Suc i) (Suc j)" by (simp add: s3)
qed

subsection \<open>The main loop\<close>

declare LEUP_loop.simps [simp del]

lemma pivot_step_inv:
  fixes A :: "'a::field ColumnMatrix"
  assumes inv: "leup_inv A i j F pivs coeff" and pm: "pm_inv (E F) p i j"
    and ij: "i < nrow A" "j < ncol A" and hd: "p i = Some (j2 # b)"
  shows "\<exists>F' p' x. pivot_step (nrow A) i j j2 F p pivs coeff = Inr (F', p', x) \<and>
           leup_inv A (Suc i) (Suc j) F' (pivs @ [i]) (coeff @ [x]) \<and>
           pm_inv (E F') p' (Suc i) (Suc j)"
proof -
  note s = shape_invD[OF leup_invD(1)[OF inv]]
  note h = pm_inv_head[OF pm hd]
  define s1 where "s1 = (if j2 \<noteq> j then swap_step i j j2 F p else (F, p))"
  have "leup_inv A i j (fst s1) pivs coeff \<and> pm_mid (E (fst s1)) (snd s1) i j"
  proof (cases "j2 = j")
    case True
    then show ?thesis using inv pm_mid_same[OF pm] hd by (simp add: s1_def)
  next
    case False
    have "leup_inv A i j (F\<lparr>E := swap_cols j j2 (E F), P := swap_cols j j2 (P F)\<rparr>) pivs coeff"
      using inv ij(2) h(1,2) s(4) by (intro leup_inv_swap) simp_all
    moreover have "pm_mid (swap_cols j j2 (E F))
        (update_pivot (swap_cols j j2 (E F)) (delete_pivot (E F) p j i) j2 i) i j"
      using pm s(2) _ hd False by (rule pm_mid_swap) (use ij s in simp)
    ultimately show ?thesis using False by (simp add: s1_def swap_step_def Let_def)
  qed
  then have inv1: "leup_inv A i j (fst s1) pivs coeff" and mid1: "pm_mid (E (fst s1)) (snd s1) i j"
    by simp_all
  note c = pivot_core[OF inv1 mid1 ij]
  have "pivot_step (nrow A) i j j2 F p pivs coeff =
        Inr ((fst s1)\<lparr>L := (L (fst s1))\<lparr>col := (col (L (fst s1)))[i := axpy (inverse (ent (E (fst s1)) i j))
                 (col (fst (fold (schur_col (nrow A) i j (ent (E (fst s1)) i j)) (tl (bucket (snd s1) i)) (E (fst s1), snd s1))) ! j)
                 (Suc i) (nrow A) (col (L (fst s1)) ! i)]\<rparr>,
               E := (fst (fold (schur_col (nrow A) i j (ent (E (fst s1)) i j)) (tl (bucket (snd s1) i)) (E (fst s1), snd s1)))
                 \<lparr>col := (col (fst (fold (schur_col (nrow A) i j (ent (E (fst s1)) i j)) (tl (bucket (snd s1) i)) (E (fst s1), snd s1))))
                    [j := [(i, ent (E (fst s1)) i j)]]\<rparr>,
               U := (U (fst s1))\<lparr>col := (col (U (fst s1)))[j := axpy_pivs (col (E (fst s1)) ! j) coeff pivs (col (U (fst s1)) ! j)]\<rparr>\<rparr>,
             (snd (fold (schur_col (nrow A) i j (ent (E (fst s1)) i j)) (tl (bucket (snd s1) i)) (E (fst s1), snd s1)))(i := None),
             inverse (ent (E (fst s1)) i j))"
    using c(1) unfolding pivot_step_def s1_def[symmetric] Let_def by simp
  with c(2,3) show ?thesis by simp
qed

lemma LEUP_loop_inv:
  fixes A :: "'a::field ColumnMatrix"
  shows "leup_inv A i j F pivs coeff \<Longrightarrow> pm_inv (E F) p i j \<Longrightarrow> m = nrow A \<Longrightarrow> n = ncol A \<Longrightarrow>
    \<exists>F' i' j' pivs' coeff'.
       LEUP_loop m n i j F p pivs coeff = Inr (F', j', pivs', coeff') \<and>
       leup_inv A i' j' F' pivs' coeff' \<and> (nrow A \<le> i' \<or> ncol A \<le> j')"
proof (induction m n i j F p pivs coeff rule: LEUP_loop.induct)
  case (1 m n i j F p2c pivs coeff)
  note inv = "1.prems"(1) and pm = "1.prems"(2) and mn = "1.prems"(3,4)
  show ?case
  proof (cases "i < m \<and> j < n")
    case False
    then have "LEUP_loop m n i j F p2c pivs coeff = Inr (F, j, pivs, coeff)"
      by (subst LEUP_loop.simps) (simp only: if_False)
    moreover have "nrow A \<le> i \<or> ncol A \<le> j" using False mn by auto
    ultimately show ?thesis using inv by blast
  next
    case True
    then have ij: "i < nrow A" "j < ncol A" using mn by simp_all
    note s = shape_invD[OF leup_invD(1)[OF inv]]
    show ?thesis
    proof (cases "p2c i")
      case None
      have z: "\<And>c. j \<le> c \<Longrightarrow> c < ncol A \<Longrightarrow> ent (E F) i c = 0"
        using pm_inv_skip(2)[OF pm s(2) None] s(4) by simp
      have inv': "leup_inv A (Suc i) j F pivs coeff"
        using inv ij(1) z by (rule leup_inv_skip)
      have pm': "pm_inv (E F) p2c (Suc i) j" using pm s(2) None by (rule pm_inv_skip(1))
      have "LEUP_loop m n i j F p2c pivs coeff = LEUP_loop m n (Suc i) j F p2c pivs coeff"
        by (subst LEUP_loop.simps) (simp only: True None if_True option.case simp_thms)
      with "1.IH"(1)[OF True None inv' pm' mn] show ?thesis by simp
    next
      case (Some bk)
      from pm_inv_nonempty[OF pm, of i] Some obtain j2 b where bk: "bk = j2 # b"
        by (cases bk) auto
      from pivot_step_inv[OF inv pm ij, of j2 b] Some bk mn
      obtain F' p' x where
        ps: "pivot_step m i j j2 F p2c pivs coeff = Inr (F', p', x)"
        and inv': "leup_inv A (Suc i) (Suc j) F' (pivs @ [i]) (coeff @ [x])"
        and pm': "pm_inv (E F') p' (Suc i) (Suc j)"
        by auto
      have "LEUP_loop m n i j F p2c pivs coeff =
            LEUP_loop m n (Suc i) (Suc j) F' p' (pivs @ [i]) (coeff @ [x])"
        by (subst LEUP_loop.simps)
           (simp only: True Some bk ps if_True option.case list.case sum.case fst_conv snd_conv simp_thms)
      moreover have "\<exists>F'' i' j' pivs' coeff'.
           LEUP_loop m n (Suc i) (Suc j) F' p' (pivs @ [i]) (coeff @ [x]) = Inr (F'', j', pivs', coeff') \<and>
           leup_inv A i' j' F'' pivs' coeff' \<and> (nrow A \<le> i' \<or> ncol A \<le> j')"
        using "1.IH"(2)[OF True Some bk ps] inv' pm' mn by simp
      ultimately show ?thesis by simp
    qed
  qed
qed

subsection \<open>The columns that were never fixed\<close>

lemma finish_fold:
  assumes "distinct xs" "\<forall>c\<in>set xs. c < length (col (U F)) \<and> c < length (col (E F))"
  shows "L (fold (finish_col cs ps) xs F) = L F \<and> P (fold (finish_col cs ps) xs F) = P F \<and>
    nrow (U (fold (finish_col cs ps) xs F)) = nrow (U F) \<and>
    ncol (U (fold (finish_col cs ps) xs F)) = ncol (U F) \<and>
    length (col (U (fold (finish_col cs ps) xs F))) = length (col (U F)) \<and>
    nrow (E (fold (finish_col cs ps) xs F)) = nrow (E F) \<and>
    ncol (E (fold (finish_col cs ps) xs F)) = ncol (E F) \<and>
    length (col (E (fold (finish_col cs ps) xs F))) = length (col (E F)) \<and>
    (\<forall>c. col (U (fold (finish_col cs ps) xs F)) ! c =
       (if c \<in> set xs then axpy_pivs (col (E F) ! c) cs ps (col (U F) ! c) else col (U F) ! c)) \<and>
    (\<forall>c. col (E (fold (finish_col cs ps) xs F)) ! c = (if c \<in> set xs then [] else col (E F) ! c))"
  using assms
proof (induction xs arbitrary: F)
  case Nil
  then show ?case by simp
next
  case (Cons x xs)
  define F1 where "F1 = finish_col cs ps x F"
  have x: "x < length (col (U F))" "x < length (col (E F))" "x \<notin> set xs" "distinct xs"
    using Cons.prems by auto
  have f1: "L F1 = L F" "P F1 = P F" "nrow (U F1) = nrow (U F)" "ncol (U F1) = ncol (U F)"
    "length (col (U F1)) = length (col (U F))" "nrow (E F1) = nrow (E F)" "ncol (E F1) = ncol (E F)"
    "length (col (E F1)) = length (col (E F))"
    "\<And>c. col (U F1) ! c = (if c = x then axpy_pivs (col (E F) ! x) cs ps (col (U F) ! x) else col (U F) ! c)"
    "\<And>c. col (E F1) ! c = (if c = x then [] else col (E F) ! c)"
    using x by (simp_all add: F1_def finish_col_def nth_list_update)
  have pre: "\<forall>c\<in>set xs. c < length (col (U F1)) \<and> c < length (col (E F1))"
    using Cons.prems(2) f1(5,8) by simp
  note ih = Cons.IH[OF x(4) pre]
  have "fold (finish_col cs ps) (x # xs) F = fold (finish_col cs ps) xs F1"
    by (simp add: F1_def)
  then show ?case using ih f1 x(3) by (simp only:) auto
qed

lemma leup_final:
  fixes A :: "'a::field ColumnMatrix"
  assumes inv: "leup_inv A i j F pivs coeff" and ex: "nrow A \<le> i \<or> ncol A \<le> j"
  defines "F2 \<equiv> fold (finish_col coeff pivs) [j..<ncol A] F"
  shows "shape_inv A F2" "tri_inv F2" "fixed_cols (E F2) pivs coeff"
    "\<And>c. j \<le> c \<Longrightarrow> c < ncol A \<Longrightarrow> col (E F2) ! c = []"
    "\<And>c r. c < ncol A \<Longrightarrow> r < nrow A \<Longrightarrow>
       ent A r (perm_of (P F2) ! c) =
         (\<Sum>k<j. ent (U F2) k c * inverse (coeff ! k) * ent (L F2) r (pivs ! k))"
proof -
  note s = shape_invD[OF leup_invD(1)[OF inv]]
  note p = piv_invD[OF leup_invD(2)[OF inv]]
  note r = rec_invD[OF leup_invD(4)[OF inv]]
  have t: "is_lower (L F)" "unit_diagonal (L F)" "is_upper (U F)" "unit_diagonal (U F)"
    using leup_invD(3)[OF inv] by (simp_all add: tri_inv_def)
  have "distinct [j..<ncol A]" "\<forall>c\<in>set [j..<ncol A]. c < length (col (U F)) \<and> c < length (col (E F))"
    using s(12,14) by simp_all
  from finish_fold[OF this, of coeff pivs]
  have f: "L F2 = L F" "P F2 = P F" "nrow (U F2) = ncol A" "ncol (U F2) = ncol A"
    "length (col (U F2)) = ncol A" "nrow (E F2) = nrow A" "ncol (E F2) = ncol A"
    "length (col (E F2)) = ncol A"
    "\<And>c. col (U F2) ! c =
       (if j \<le> c \<and> c < ncol A then axpy_pivs (col (E F) ! c) coeff pivs (col (U F) ! c) else col (U F) ! c)"
    "\<And>c. col (E F2) ! c = (if j \<le> c \<and> c < ncol A then [] else col (E F) ! c)"
    using s by (simp_all add: F2_def)
  have lp: "length pivs \<le> ncol A" using p(1,3) by simp
  have wu: "wf_vec (ncol A) [(c, 1 :: 'a)]" if "c < ncol A" for c
    using that by (simp add: wf_vec_Cons)
  have u2: "ent (U F2) k c = (if k = c then 1 else if k < j then coeff ! k * ent (E F) (pivs ! k) c else 0)"
    if "j \<le> c" "c < ncol A" for k c
    using getval_axpy_pivs[OF wu[OF that(2)] lp, of "col (E F) ! c" coeff k] f(9)[of c] p(8)[OF that] that p(1)
    by (auto simp: ent_def getval_Cons)
  have u2': "ent (U F2) k c = ent (U F) k c" if "c < j" for k c
    using f(9)[of c] that by (simp add: ent_def)
  show "shape_inv A F2"
    unfolding shape_inv_def
  proof (intro conjI)
    show "wf_mat (E F2)"
    proof (rule wf_matI)
      fix c assume "c < ncol (E F2)"
      then show "wf_vec (nrow (E F2)) (col (E F2) ! c)"
        using f(6,7,10) wf_matD[OF s(2), of c] s(3,4) by simp
    qed (use f in simp)
    show "wf_mat (U F2)"
    proof (rule wf_matI)
      fix c assume "c < ncol (U F2)"
      then have c: "c < ncol A" using f by simp
      show "wf_vec (nrow (U F2)) (col (U F2) ! c)"
      proof (cases "j \<le> c")
        case True
        then show ?thesis
          using f(3) f(9)[of c] p(8)[OF True c] c wf_axpy_pivs[OF wu[OF c] lp] by simp
      next
        case False
        then show ?thesis using f(3) f(9)[of c] wf_matD[OF s(8), of c] c s(9,10) by simp
      qed
    qed (use f in simp)
  qed (use s f in simp_all)
  show "tri_inv F2"
    unfolding tri_inv_def
  proof (intro conjI)
    show "is_lower (L F2)" "unit_diagonal (L F2)" using t f by simp_all
    have wf2: "wf_mat (U F2)" using \<open>shape_inv A F2\<close> by (simp add: shape_inv_def)
    show "is_upper (U F2)"
      unfolding is_upper_iff
    proof (intro allI impI ballI)
      fix c q assume c: "c < length (col (U F2))" and q: "q \<in> set (col (U F2) ! c)"
      then have c': "c < ncol A" using f by simp
      show "fst q \<le> c"
      proof (cases "j \<le> c")
        case True
        have "wf_vec (ncol A) (col (U F2) ! c)" using wf_matD[OF wf2, of c] c' f by simp
        moreover have "\<And>k. c < k \<Longrightarrow> getval (col (U F2) ! c) k = 0"
          using u2[OF True c'] True by (simp add: ent_def)
        ultimately show ?thesis using q by (rule stored_entry_ge)
      next
        case False
        then show ?thesis using t(3) f(9)[of c] q c' s(14) by (simp add: is_upper_iff)
      qed
    qed
    show "unit_diagonal (U F2)"
      unfolding unit_diagonal_iff
    proof (intro conjI allI impI)
      fix c assume "c < length (col (U F2))"
      then have c': "c < ncol A" using f by simp
      show "ent (U F2) c c = 1"
      proof (cases "j \<le> c")
        case True
        then show ?thesis using u2[OF True c', of c] by simp
      next
        case False
        then show ?thesis using u2'[of c c] t(4) c' s(14) by (simp add: unit_diagonal_iff)
      qed
    qed (use f in simp)
  qed
  show "fixed_cols (E F2) pivs coeff"
    using p(7) p(1) f(10) by (simp add: fixed_cols_def)
  show "\<And>c. j \<le> c \<Longrightarrow> c < ncol A \<Longrightarrow> col (E F2) ! c = []"
    using f(10) by simp
  fix c r assume cr: "c < ncol A" "r < nrow A"
  show "ent A r (perm_of (P F2) ! c) =
         (\<Sum>k<j. ent (U F2) k c * inverse (coeff ! k) * ent (L F2) r (pivs ! k))"
  proof (cases "j \<le> c")
    case False
    then show ?thesis using r(2)[of c r] cr f(1,2) u2'[of c] by simp
  next
    case True
    with ex cr p(3) have i: "nrow A \<le> i" by auto
    have ck: "coeff ! k \<noteq> 0" if "k < j" for k
      using fixed_colsD[OF p(7), of k] p(1) that by simp
    have "ent A r (perm_of (P F) ! c) = hist (L F) (E F) pivs r c"
      using r(1)[OF True cr] i cr by simp
    also have "\<dots> = (\<Sum>k<j. ent (U F2) k c * inverse (coeff ! k) * ent (L F) r (pivs ! k))"
      unfolding hist_def p(1)
      using True ck u2[OF True cr(1)] by (intro sum.cong) auto
    finally show ?thesis using f(1,2) by simp
  qed
qed

subsection \<open>Permutation matrices under transpose and conjugation\<close>

lemma perm_colsD:
  assumes "perm_cols n Pm"
  shows "nrow Pm = n" "ncol Pm = n" "length (col Pm) = n" "length (perm_of Pm) = n"
    "distinct (perm_of Pm)" "set (perm_of Pm) = {..<n}"
    "\<And>c. c < n \<Longrightarrow> col Pm ! c = [(perm_of Pm ! c, 1)]"
    "\<And>c. c < n \<Longrightarrow> perm_of Pm ! c < n"
proof -
  show l: "length (perm_of Pm) = n" using assms by (rule perm_cols_length)
  then show "length (col Pm) = n" by (simp add: perm_of_def)
  show "nrow Pm = n" "ncol Pm = n" "distinct (perm_of Pm)" "set (perm_of Pm) = {..<n}"
    using assms by (simp_all add: perm_cols_def)
  have c: "col Pm = map (\<lambda>s. [(s, 1)]) (perm_of Pm)" using assms by (simp add: perm_cols_def)
  show "\<And>c. c < n \<Longrightarrow> col Pm ! c = [(perm_of Pm ! c, 1)]"
    using l by (subst c) simp
  show "\<And>c. c < n \<Longrightarrow> perm_of Pm ! c < n" using assms by (rule perm_cols_lt)
qed

lemma perm_colsI:
  assumes "nrow Pm = n" "ncol Pm = n" "length (col Pm) = n"
    "\<And>c. c < n \<Longrightarrow> col Pm ! c = [(f c, 1)]" "inj_on f {..<n}" "f ` {..<n} = {..<n}"
  shows "perm_cols n Pm" "\<And>c. c < n \<Longrightarrow> perm_of Pm ! c = f c"
proof -
  have po: "perm_of Pm = map f [0..<n]"
    by (rule nth_equalityI) (use assms(3,4) in \<open>simp_all add: perm_of_def\<close>)
  then show "\<And>c. c < n \<Longrightarrow> perm_of Pm ! c = f c" by simp
  have "col Pm = map (\<lambda>s. [(s, 1)]) (perm_of Pm)"
    by (rule nth_equalityI) (use assms(3,4) po in simp_all)
  moreover have "distinct (perm_of Pm)"
    using assms(5) by (simp add: po distinct_map atLeast0LessThan)
  moreover have "set (perm_of Pm) = {..<n}"
    using assms(6) by (simp add: po atLeast0LessThan)
  ultimately show "perm_cols n Pm" using assms(1,2) by (simp add: perm_cols_def)
qed

lemma perm_cols_wf:
  fixes Pm :: "'a::field ColumnMatrix"
  assumes "perm_cols n Pm"
  shows "wf_mat Pm"
proof (rule wf_matI)
  note p = perm_colsD[OF assms]
  show "length (col Pm) = ncol Pm" using p by simp
  fix c assume "c < ncol Pm"
  then show "wf_vec (nrow Pm) (col Pm ! c)"
    using p(1,2) p(7,8)[of c] by (simp add: wf_vec_Cons)
qed

lemma perm_cols_ent:
  fixes Pm :: "'a::field ColumnMatrix"
  assumes "perm_cols n Pm" "c < n"
  shows "ent Pm r c = (if r = perm_of Pm ! c then 1 else 0)"
  using perm_colsD(7)[OF assms] by (simp add: ent_def getval_Cons)

lemma perm_cols_inverse:
  assumes "perm_cols n Pm"
  obtains g where "\<And>c. c < n \<Longrightarrow> g c < n \<and> perm_of Pm ! (g c) = c"
    "\<And>c. c < n \<Longrightarrow> g (perm_of Pm ! c) = c" "inj_on g {..<n}" "g ` {..<n} = {..<n}"
proof -
  note p = perm_colsD[OF assms]
  have bij: "bij_betw ((!) (perm_of Pm)) {..<n} {..<n}"
    using p(4,5,6) by (intro bij_betw_nth) simp_all
  define g where "g = the_inv_into {..<n} ((!) (perm_of Pm))"
  have gb: "bij_betw g {..<n} {..<n}" unfolding g_def using bij by (rule bij_betw_the_inv_into)
  have 1: "g c < n \<and> perm_of Pm ! (g c) = c" if "c < n" for c
  proof -
    have "g c \<in> {..<n}" using gb that by (auto simp: bij_betw_def)
    moreover have "perm_of Pm ! (g c) = c"
      unfolding g_def by (rule f_the_inv_into_f_bij_betw[OF bij]) (use that in simp)
    ultimately show ?thesis by simp
  qed
  have 2: "g (perm_of Pm ! c) = c" if "c < n" for c
    using the_inv_into_f_f[OF bij_betw_imp_inj_on[OF bij], of c] that by (simp add: g_def)
  show ?thesis
    using that[of g] 1 2 bij_betw_imp_inj_on[OF gb] bij_betw_imp_surj_on[OF gb] by blast
qed

lemma vec_of_single:
  fixes f :: "nat \<Rightarrow> 'a::field"
  assumes "k < n" "\<And>t. t < n \<Longrightarrow> f t = (if t = k then 1 else 0)"
  shows "vec_of n f = [(k, 1)]"
proof (rule vec_ext[where m = n])
  show "wf_vec n (vec_of n f)" by (simp add: wf_vec_of)
  show "wf_vec n [(k, 1 :: 'a)]" using assms(1) by (simp add: wf_vec_Cons)
  fix t assume "t < n"
  then show "getval (vec_of n f) t = getval [(k, 1)] t"
    using assms(2)[of t] by (simp add: getval_vec_of getval_Cons)
qed

lemma perm_cols_T:
  fixes Pm :: "'a::field ColumnMatrix"
  assumes "perm_cols n Pm"
  shows "perm_cols n (T Pm)"
proof -
  note p = perm_colsD[OF assms]
  from perm_cols_inverse[OF assms] obtain g where
    g: "\<And>c. c < n \<Longrightarrow> g c < n \<and> perm_of Pm ! (g c) = c"
    "\<And>c. c < n \<Longrightarrow> g (perm_of Pm ! c) = c" "inj_on g {..<n}" "g ` {..<n} = {..<n}"
    by blast
  have "col (T Pm) ! c = [(g c, 1)]" if "c < n" for c
  proof -
    have "ent Pm c t = (if t = g c then 1 else 0)" if "t < n" for t
      using perm_cols_ent[OF assms that, of c] g(1)[OF \<open>c < n\<close>] g(2)[OF that] by auto
    then have "vec_of n (\<lambda>t. ent Pm c t) = [(g c, 1)]"
      using g(1)[OF \<open>c < n\<close>] by (intro vec_of_single) simp_all
    then show ?thesis using that p(1,2) by (simp add: T_def)
  qed
  then show ?thesis
    using p(1,2) g(3,4) by (intro perm_colsI(1)[where f = g]) simp_all
qed

lemma perm_cols_J:
  fixes Pm :: "'a::field ColumnMatrix"
  assumes "perm_cols n Pm"
  shows "perm_cols n (J_conjugation Pm)"
proof -
  note p = perm_colsD[OF assms]
  define f where "f c = n - Suc (perm_of Pm ! (n - Suc c))" for c
  have c: "col (J_conjugation Pm) ! c = [(f c, 1)]" if "c < n" for c
    using that p(1,3) p(7)[of "n - Suc c"] by (simp add: col_J f_def)
  have lt: "f c < n" if "c < n" for c using that by (simp add: f_def)
  have inj: "inj_on f {..<n}"
  proof (rule inj_onI)
    fix x y assume xy: "x \<in> {..<n}" "y \<in> {..<n}" "f x = f y"
    then have "perm_of Pm ! (n - Suc x) = perm_of Pm ! (n - Suc y)"
      using p(8)[of "n - Suc x"] p(8)[of "n - Suc y"] by (simp add: f_def)
    then have "n - Suc x = n - Suc y"
      using p(4,5) xy by (simp add: nth_eq_iff_index_eq)
    with xy show "x = y" by simp
  qed
  have "f ` {..<n} = {..<n}"
  proof (rule card_subset_eq)
    show "f ` {..<n} \<subseteq> {..<n}" using lt by auto
    show "card (f ` {..<n}) = card {..<n}" using inj by (rule card_image)
  qed simp
  with inj c p show ?thesis by (intro perm_colsI(1)[where f = f]) simp_all
qed

lemma length_filter_eq_distinct:
  "distinct xs \<Longrightarrow> x \<in> set xs \<Longrightarrow> length (filter (\<lambda>s. x = s) xs) = 1"
  by (induction xs) (auto simp: filter_empty_conv)

lemma perm_cols_pivot:
  fixes Pm :: "'a::field ColumnMatrix"
  assumes "perm_cols n Pm"
  shows "is_pivot_matrix Pm"
proof -
  note p = perm_colsD[OF assms]
  have c: "col Pm = map (\<lambda>s. [(s, 1)]) (perm_of Pm)" using assms by (simp add: perm_cols_def)
  have 1: "list_all (\<lambda>v. length v = 1 \<and> snd (hd v) = (1::'a)) (col Pm)"
    by (subst c) (simp add: list_all_iff)
  have "length (filter (\<lambda>v. getval v i \<noteq> 0) (col Pm)) = 1" if "i < n" for i
  proof -
    have "filter (\<lambda>v. getval v i \<noteq> 0) (col Pm) =
          map (\<lambda>s. [(s, 1)]) (filter (\<lambda>s. i = s) (perm_of Pm))"
      by (subst c) (simp add: filter_map comp_def getval_Cons)
    then show ?thesis using length_filter_eq_distinct[OF p(5), of i] p(6) that by simp
  qed
  then have 2: "list_all (\<lambda>i. length (filter (\<lambda>v. getval v i \<noteq> 0) (col Pm)) = 1) [0..<nrow Pm]"
    using p(1) by (simp add: list_all_iff)
  show ?thesis unfolding is_pivot_matrix_def using 1 2 by simp
qed

subsection \<open>The product of the bundle\<close>

lemma good_factD:
  assumes "good_fact m n k F"
  shows "wf_mat (L F)" "nrow (L F) = m" "ncol (L F) = m" "is_lower (L F)" "unit_diagonal (L F)"
    "wf_mat (U F)" "nrow (U F) = n" "ncol (U F) = n" "is_upper (U F)" "unit_diagonal (U F)"
    "wf_mat (E F)" "nrow (E F) = m" "ncol (E F) = n" "perm_cols k (P F)" "wf_mat (P F)"
    "nrow (P F) = k" "ncol (P F) = k"
  using assms perm_cols_wf[of k "P F"] perm_colsD(1,2)[of k "P F"]
  by (simp_all add: good_fact_def)

lemma is_EL_fixed:
  fixes Em :: "'a::field ColumnMatrix"
  assumes "fixed_cols Em pivs coeff" "sorted_wrt (<) pivs" "length pivs \<le> length (col Em)"
    "\<And>c. length pivs \<le> c \<Longrightarrow> c < length (col Em) \<Longrightarrow> col Em ! c = []"
  shows "is_EL Em"
proof -
  have c: "col Em = map (\<lambda>k. [(pivs ! k, inverse (coeff ! k))]) [0..<length pivs] @
                   replicate (length (col Em) - length pivs) []"
    using assms(3,4) fixed_colsD[OF assms(1)]
    by (intro nth_equalityI) (auto simp: nth_append)
  have "filter (\<lambda>v. v \<noteq> []) (col Em) =
        map (\<lambda>k. [(pivs ! k, inverse (coeff ! k))]) [0..<length pivs]"
    by (subst c) (simp add: filter_map comp_def)
  then have "map (\<lambda>v. fst (hd v)) (filter (\<lambda>v. v \<noteq> []) (col Em)) = map (\<lambda>k. pivs ! k) [0..<length pivs]"
    by (simp add: comp_def)
  also have "\<dots> = pivs" by (rule map_nth)
  finally show ?thesis using assms(2) by (simp add: is_EL_def)
qed

lemma sum_perm_delta:
  fixes g :: "nat \<Rightarrow> 'a::comm_monoid_add"
  assumes "distinct xs" "c \<in> set xs"
  shows "(\<Sum>k<length xs. if c = xs ! k then g (xs ! k) else 0) = g c"
proof -
  from assms(2) obtain k0 where k0: "k0 < length xs" "xs ! k0 = c"
    by (auto simp: in_set_conv_nth)
  have "(\<Sum>k<length xs. if c = xs ! k then g (xs ! k) else 0) =
        (\<Sum>k<length xs. if k = k0 then g c else 0)"
    using assms(1) k0 by (intro sum.cong) (auto simp: nth_eq_iff_index_eq)
  also have "\<dots> = g c" using k0(1) by simp
  finally show ?thesis .
qed

lemma LEUP_prod_final:
  fixes A :: "'a::field ColumnMatrix"
  assumes sh: "shape_inv A F2" and fc: "fixed_cols (E F2) pivs coeff"
    and pv: "length pivs = j" "j \<le> ncol A" "\<And>k. k < j \<Longrightarrow> pivs ! k < nrow A"
    and ez: "\<And>c. j \<le> c \<Longrightarrow> c < ncol A \<Longrightarrow> col (E F2) ! c = []"
    and rc: "\<And>c r. c < ncol A \<Longrightarrow> r < nrow A \<Longrightarrow>
       ent A r (perm_of (P F2) ! c) =
         (\<Sum>k<j. ent (U F2) k c * inverse (coeff ! k) * ent (L F2) r (pivs ! k))"
  shows "LEUP_prod (F2\<lparr>P := T (P F2)\<rparr>) = A"
proof -
  note s = shape_invD[OF sh]
  note pc = perm_colsD[OF s(11)]
  let ?LE = "mat_mult (L F2) (E F2)"
  let ?LEU = "mat_mult ?LE (U F2)"
  have wLE: "wf_mat ?LE" using s by (intro wf_mat_mult) simp_all
  have wLEU: "wf_mat ?LEU" using s wLE by (intro wf_mat_mult) simp_all
  have wP: "wf_mat (T (P F2))" by simp
  have eLE: "ent ?LE r k = (if k < j then ent (L F2) r (pivs ! k) * inverse (coeff ! k) else 0)"
    if "k < ncol A" for r k
  proof -
    have "ent ?LE r k = (\<Sum>t<nrow A. ent (L F2) r t * ent (E F2) t k)"
      using s that by (subst ent_mat_mult) simp_all
    also have "\<dots> = (if k < j then ent (L F2) r (pivs ! k) * inverse (coeff ! k) else 0)"
    proof (cases "k < j")
      case True
      have "ent (E F2) t k = (if t = pivs ! k then inverse (coeff ! k) else 0)" for t
        using fixed_colsD[OF fc, of k] True pv(1) by (simp add: ent_def getval_Cons)
      then have "(\<Sum>t<nrow A. ent (L F2) r t * ent (E F2) t k) =
            (\<Sum>t<nrow A. if t = pivs ! k then ent (L F2) r t * inverse (coeff ! k) else 0)"
        by (intro sum.cong) simp_all
      also have "\<dots> = ent (L F2) r (pivs ! k) * inverse (coeff ! k)"
        using pv(3)[OF True] by simp
      finally show ?thesis using True by simp
    next
      case False
      then have "ent (E F2) t k = 0" for t using ez[of k] that by (simp add: ent_def)
      then show ?thesis using False by simp
    qed
    finally show ?thesis .
  qed
  have eLEU: "ent ?LEU r c = ent A r (perm_of (P F2) ! c)" if "c < ncol A" "r < nrow A" for r c
  proof -
    have "ent ?LEU r c = (\<Sum>k<ncol A. ent ?LE r k * ent (U F2) k c)"
      using s wLE that by (subst ent_mat_mult) simp_all
    also have "\<dots> = (\<Sum>k<ncol A. if k < j then ent (U F2) k c * inverse (coeff ! k) * ent (L F2) r (pivs ! k) else 0)"
      by (intro sum.cong) (simp_all add: eLE)
    also have "\<dots> = (\<Sum>k<j. ent (U F2) k c * inverse (coeff ! k) * ent (L F2) r (pivs ! k))"
      using pv(2) by (subst sum.inter_filter[symmetric]) (auto intro!: sum.cong)
    finally show ?thesis using rc[OF that] by simp
  qed
  have eP: "ent (T (P F2)) k c = (if c = perm_of (P F2) ! k then 1 else 0)"
    if "k < ncol A" "c < ncol A" for k c
    using perm_cols_ent[OF s(11) that(1), of c] pc(1,2) that by (simp add: ent_T)
  show ?thesis
    unfolding LEUP_prod_def
  proof (rule mat_ext)
    show "wf_mat (mat_mult (mat_mult (mat_mult (L (F2\<lparr>P := T (P F2)\<rparr>)) (E (F2\<lparr>P := T (P F2)\<rparr>)))
        (U (F2\<lparr>P := T (P F2)\<rparr>))) (P (F2\<lparr>P := T (P F2)\<rparr>)))"
      using wLEU s pc by (simp add: wf_mat_mult)
    show "wf_mat A" by (rule s(1))
  next
    fix r c
    assume "r < nrow (mat_mult (mat_mult (mat_mult (L (F2\<lparr>P := T (P F2)\<rparr>)) (E (F2\<lparr>P := T (P F2)\<rparr>)))
        (U (F2\<lparr>P := T (P F2)\<rparr>))) (P (F2\<lparr>P := T (P F2)\<rparr>)))"
      and "c < ncol (mat_mult (mat_mult (mat_mult (L (F2\<lparr>P := T (P F2)\<rparr>)) (E (F2\<lparr>P := T (P F2)\<rparr>)))
        (U (F2\<lparr>P := T (P F2)\<rparr>))) (P (F2\<lparr>P := T (P F2)\<rparr>)))"
    then have rc': "r < nrow A" "c < ncol A" using s pc by simp_all
    have "ent (mat_mult ?LEU (T (P F2))) r c = (\<Sum>k<ncol A. ent ?LEU r k * ent (T (P F2)) k c)"
      using wLEU s pc rc' by (subst ent_mat_mult) simp_all
    also have "\<dots> = (\<Sum>k<length (perm_of (P F2)).
          if c = perm_of (P F2) ! k then ent A r (perm_of (P F2) ! k) else 0)"
      unfolding pc(4) using rc' by (intro sum.cong) (simp_all add: eLEU eP)
    also have "\<dots> = ent A r c"
      using pc(5,6) rc' by (intro sum_perm_delta) simp_all
    finally show "ent (mat_mult (mat_mult (mat_mult (L (F2\<lparr>P := T (P F2)\<rparr>)) (E (F2\<lparr>P := T (P F2)\<rparr>)))
        (U (F2\<lparr>P := T (P F2)\<rparr>))) (P (F2\<lparr>P := T (P F2)\<rparr>))) r c = ent A r c"
      by simp
  qed (use s pc in simp_all)
qed

lemma LEUP_inplace_correct:
  fixes A :: "'a::field ColumnMatrix"
  assumes wf: "wf_mat A"
  shows "\<exists>F. LEUP_inplace \<lparr>L = identity (nrow A), E = A, U = identity (ncol A), P = identity (ncol A)\<rparr> = Inr F \<and>
             good_fact (nrow A) (ncol A) (ncol A) F \<and> is_EL (E F) \<and> LEUP_prod F = A"
proof -
  let ?F0 = "\<lparr>L = identity (nrow A), E = A, U = identity (ncol A), P = identity (ncol A)\<rparr>"
  have inv0: "leup_inv A 0 0 ?F0 [] []" using wf by (rule leup_inv_init)
  have pm0: "pm_inv (E ?F0) (get_pivots A) 0 0" using pm_inv_get_pivots[of A] by simp
  from LEUP_loop_inv[OF inv0 pm0 refl refl]
  obtain F1 i j pivs coeff where
    lp: "LEUP_loop (nrow A) (ncol A) 0 0 ?F0 (get_pivots A) [] [] = Inr (F1, j, pivs, coeff)"
    and inv: "leup_inv A i j F1 pivs coeff" and ex: "nrow A \<le> i \<or> ncol A \<le> j"
    by blast
  define F2 where "F2 = fold (finish_col coeff pivs) [j..<ncol A] F1"
  note fin = leup_final[OF inv ex, folded F2_def]
  note p = piv_invD[OF leup_invD(2)[OF inv]]
  note s = shape_invD[OF fin(1)]
  have res: "LEUP_inplace ?F0 = Inr (F2\<lparr>P := T (P F2)\<rparr>)"
    by (simp add: LEUP_inplace_def Let_def lp F2_def)
  have pk: "pivs ! k < nrow A" if "k < j" for k
    using p(6)[of "pivs ! k"] p(1,4) that by simp
  have prod: "LEUP_prod (F2\<lparr>P := T (P F2)\<rparr>) = A"
    using fin(1,3) p(1,3) pk fin(4,5) by (rule LEUP_prod_final)
  have el: "is_EL (E F2)"
    using fin(3) p(5) by (rule is_EL_fixed) (use p(1,3) s(12) fin(4) in simp_all)
  have t: "is_lower (L F2)" "unit_diagonal (L F2)" "is_upper (U F2)" "unit_diagonal (U F2)"
    using fin(2) by (simp_all add: tri_inv_def)
  have "good_fact (nrow A) (ncol A) (ncol A) (F2\<lparr>P := T (P F2)\<rparr>)"
    using s t perm_cols_T[OF s(11)] by (simp add: good_fact_def)
  with res prod el show ?thesis by simp
qed

subsection \<open>The four factorizations\<close>

lemma is_lower_T:
  assumes "is_upper Um" "length (col Um) = ncol Um"
  shows "is_lower (T Um)"
  unfolding is_lower_iff
proof (intro allI impI ballI)
  fix i p assume i: "i < length (col (T Um))" and p: "p \<in> set (col (T Um) ! i)"
  then have "p \<in> set (vec_of (ncol Um) (\<lambda>j. ent Um i j))" by (simp add: T_def)
  then have "fst p < ncol Um" "ent Um i (fst p) \<noteq> 0" by (auto simp: set_vec_of)
  with is_upper_ent[OF assms(1), of "fst p" i] assms(2) show "i \<le> fst p"
    by (cases "i \<le> fst p") auto
qed

lemma is_upper_T:
  assumes "is_lower Lm" "length (col Lm) = ncol Lm"
  shows "is_upper (T Lm)"
  unfolding is_upper_iff
proof (intro allI impI ballI)
  fix i p assume i: "i < length (col (T Lm))" and p: "p \<in> set (col (T Lm) ! i)"
  then have "p \<in> set (vec_of (ncol Lm) (\<lambda>j. ent Lm i j))" by (simp add: T_def)
  then have "fst p < ncol Lm" "ent Lm i (fst p) \<noteq> 0" by (auto simp: set_vec_of)
  with is_lower_ent[OF assms(1), of "fst p" i] assms(2) show "fst p \<le> i"
    by (cases "fst p \<le> i") auto
qed

lemma unit_diagonal_T:
  assumes "unit_diagonal M" "length (col M) = ncol M"
  shows "unit_diagonal (T M)"
  using assms by (simp add: unit_diagonal_iff ent_T)

lemma is_lower_J:
  assumes "is_upper Um" "wf_mat Um" "nrow Um = ncol Um"
  shows "is_lower (J_conjugation Um)"
  unfolding is_lower_iff
proof (intro allI impI ballI)
  fix j p assume j: "j < length (col (J_conjugation Um))" and p: "p \<in> set (col (J_conjugation Um) ! j)"
  have len: "length (col Um) = ncol Um" using assms(2) by (rule wf_mat_len)
  from j len have j': "j < ncol Um" by simp
  from p j obtain q where q: "q \<in> set (col Um ! (ncol Um - Suc j))" "fst p = nrow Um - Suc (fst q)"
    by (auto simp: col_J len)
  have "fst q \<le> ncol Um - Suc j"
    using assms(1) q(1) j' len by (simp add: is_upper_iff)
  with q(2) assms(3) j' show "j \<le> fst p" by simp
qed

lemma is_upper_J:
  assumes "is_lower Lm" "wf_mat Lm" "nrow Lm = ncol Lm"
  shows "is_upper (J_conjugation Lm)"
  unfolding is_upper_iff
proof (intro allI impI ballI)
  fix j p assume j: "j < length (col (J_conjugation Lm))" and p: "p \<in> set (col (J_conjugation Lm) ! j)"
  have len: "length (col Lm) = ncol Lm" using assms(2) by (rule wf_mat_len)
  from j len have j': "j < ncol Lm" by simp
  from p j obtain q where q: "q \<in> set (col Lm ! (ncol Lm - Suc j))" "fst p = nrow Lm - Suc (fst q)"
    by (auto simp: col_J len)
  have "ncol Lm - Suc j \<le> fst q"
    using assms(1) q(1) j' len by (simp add: is_lower_iff)
  with q(2) assms(3) j' show "fst p \<le> j" by simp
qed

lemma unit_diagonal_J:
  assumes "unit_diagonal M" "wf_mat M"
  shows "unit_diagonal (J_conjugation M)"
  using assms by (simp add: unit_diagonal_iff ent_J wf_mat_len)

lemma T_prod4:
  assumes "wf_mat L0" "wf_mat E0" "wf_mat U0" "wf_mat P0"
    "ncol L0 = nrow E0" "ncol E0 = nrow U0" "ncol U0 = nrow P0"
  shows "T (mat_mult (mat_mult (mat_mult L0 E0) U0) P0) =
         mat_mult (mat_mult (mat_mult (T P0) (T U0)) (T E0)) (T L0)"
proof -
  have "T (mat_mult (mat_mult (mat_mult L0 E0) U0) P0) =
        mat_mult (T P0) (mat_mult (T U0) (mat_mult (T E0) (T L0)))"
    using assms by (simp add: T_mult wf_mat_mult)
  also have "\<dots> = mat_mult (mat_mult (T P0) (T U0)) (mat_mult (T E0) (T L0))"
    using assms by (subst mat_mult_assoc) (simp_all add: wf_mat_mult)
  also have "\<dots> = mat_mult (mat_mult (mat_mult (T P0) (T U0)) (T E0)) (T L0)"
    using assms by (subst mat_mult_assoc) (simp_all add: wf_mat_mult)
  finally show ?thesis .
qed

lemma J_prod4:
  assumes "wf_mat L0" "wf_mat E0" "wf_mat U0" "wf_mat P0"
    "ncol L0 = nrow E0" "ncol E0 = nrow U0" "ncol U0 = nrow P0"
  shows "J_conjugation (mat_mult (mat_mult (mat_mult L0 E0) U0) P0) =
         mat_mult (mat_mult (mat_mult (J_conjugation L0) (J_conjugation E0)) (J_conjugation U0))
           (J_conjugation P0)"
  using assms by (simp add: J_mult wf_mat_mult)

lemma LEUP_correct:
  fixes A :: "'a::field ColumnMatrix"
  assumes wf: "wf_mat A"
  shows "\<exists>F. LEUP A = Inr F \<and> good_fact (nrow A) (ncol A) (ncol A) F \<and> is_EL (E F) \<and> LEUP_prod F = A"
  unfolding LEUP_def using wf by (rule LEUP_inplace_correct)

lemma PLEU_correct:
  fixes A :: "'a::field ColumnMatrix"
  assumes wf: "wf_mat A"
  shows "\<exists>F. PLEU A = Inr F \<and> good_fact (nrow A) (ncol A) (nrow A) F \<and> is_EU (E F) \<and> PLEU_prod F = A"
proof -
  from LEUP_correct[of "T A"] obtain F0 where
    F0: "LEUP (T A) = Inr F0" and g0: "good_fact (ncol A) (nrow A) (nrow A) F0"
    and el: "is_EL (E F0)" and pr: "LEUP_prod F0 = T A"
    by auto
  note g = good_factD[OF g0]
  let ?F = "\<lparr>L = T (U F0), E = T (E F0), U = T (L F0), P = T (P F0)\<rparr>"
  have res: "PLEU A = Inr ?F" by (simp add: PLEU_def then_fact_def F0)
  have "good_fact (nrow A) (ncol A) (nrow A) ?F"
    using g by (simp add: good_fact_def is_lower_T is_upper_T unit_diagonal_T wf_mat_len perm_cols_T)
  moreover have "is_EU (E ?F)" using el g(11) by (simp add: is_EU_def T_T)
  moreover have "PLEU_prod ?F = A"
  proof -
    have "PLEU_prod ?F = T (LEUP_prod F0)"
      unfolding PLEU_prod_def LEUP_prod_def using g by (subst T_prod4) simp_all
    then show ?thesis using pr wf by (simp add: T_T)
  qed
  ultimately show ?thesis using res by blast
qed

lemma UELP_correct:
  fixes A :: "'a::field ColumnMatrix"
  assumes wf: "wf_mat A"
  shows "\<exists>F. UELP A = Inr F \<and>
      wf_mat (L F) \<and> nrow (L F) = ncol A \<and> ncol (L F) = ncol A \<and> is_lower (L F) \<and> unit_diagonal (L F) \<and>
      wf_mat (U F) \<and> nrow (U F) = nrow A \<and> ncol (U F) = nrow A \<and> is_upper (U F) \<and> unit_diagonal (U F) \<and>
      wf_mat (E F) \<and> nrow (E F) = nrow A \<and> ncol (E F) = ncol A \<and> perm_cols (ncol A) (P F) \<and>
      is_ELhat (E F) \<and> UELP_prod F = A"
proof -
  from LEUP_correct[of "J_conjugation A"] wf obtain F0 where
    F0: "LEUP (J_conjugation A) = Inr F0" and g0: "good_fact (nrow A) (ncol A) (ncol A) F0"
    and el: "is_EL (E F0)" and pr: "LEUP_prod F0 = J_conjugation A"
    by (auto simp: wf_J)
  note g = good_factD[OF g0]
  let ?F = "\<lparr>L = J_conjugation (U F0), E = J_conjugation (E F0), U = J_conjugation (L F0),
            P = J_conjugation (P F0)\<rparr>"
  have res: "UELP A = Inr ?F" by (simp add: UELP_def then_fact_def F0)
  have "UELP_prod ?F = J_conjugation (LEUP_prod F0)"
    unfolding UELP_prod_def LEUP_prod_def using g by (subst J_prod4) simp_all
  then have "UELP_prod ?F = A" using pr wf by (simp add: J_J)
  moreover have "is_ELhat (E ?F)" using el g(11) by (simp add: is_ELhat_def J_J)
  ultimately show ?thesis
    using res g by (simp add: wf_J is_lower_J is_upper_J unit_diagonal_J perm_cols_J)
qed

lemma PUEL_correct:
  fixes A :: "'a::field ColumnMatrix"
  assumes wf: "wf_mat A"
  shows "\<exists>F. PUEL A = Inr F \<and>
      wf_mat (L F) \<and> nrow (L F) = ncol A \<and> ncol (L F) = ncol A \<and> is_lower (L F) \<and> unit_diagonal (L F) \<and>
      wf_mat (U F) \<and> nrow (U F) = nrow A \<and> ncol (U F) = nrow A \<and> is_upper (U F) \<and> unit_diagonal (U F) \<and>
      wf_mat (E F) \<and> nrow (E F) = nrow A \<and> ncol (E F) = ncol A \<and> perm_cols (nrow A) (P F) \<and>
      is_EUhat (E F) \<and> PUEL_prod F = A"
proof -
  from LEUP_correct[of "T (J_conjugation A)"] obtain F0 where
    F0: "LEUP (T (J_conjugation A)) = Inr F0" and g0: "good_fact (ncol A) (nrow A) (nrow A) F0"
    and el: "is_EL (E F0)" and pr: "LEUP_prod F0 = T (J_conjugation A)"
    by auto
  note g = good_factD[OF g0]
  let ?F = "\<lparr>L = J_conjugation (T (L F0)), E = J_conjugation (T (E F0)),
            U = J_conjugation (T (U F0)), P = J_conjugation (T (P F0))\<rparr>"
  have res: "PUEL A = Inr ?F" by (simp add: PUEL_def then_fact_def F0)
  have "PUEL_prod ?F = J_conjugation (T (LEUP_prod F0))"
    unfolding PUEL_prod_def LEUP_prod_def using g
    by (subst T_prod4) (simp_all add: J_mult wf_mat_mult)
  then have "PUEL_prod ?F = A" using pr wf by (simp add: T_T J_J wf_J)
  moreover have "is_EUhat (E ?F)" using el g(11) by (simp add: is_EUhat_def is_EU_def J_J T_T)
  moreover have "is_lower (J_conjugation (T (L F0)))"
    using g by (intro is_lower_J is_upper_T) (simp_all add: wf_mat_len)
  moreover have "is_upper (J_conjugation (T (U F0)))"
    using g by (intro is_upper_J is_lower_T) (simp_all add: wf_mat_len)
  ultimately show ?thesis
    using res g by (simp add: wf_J unit_diagonal_J unit_diagonal_T perm_cols_J perm_cols_T wf_mat_len)
qed

lemma PUEL_inplace_eq:
  fixes A :: "'a::field ColumnMatrix"
  assumes wf: "wf_mat A" and sq: "nrow A = ncol A"
  shows "\<exists>F. PUEL A = Inr F \<and>
    PUEL_inplace \<lparr>L = identity (nrow A), E = A, U = identity (nrow A), P = identity (nrow A)\<rparr> = Inr F"
proof -
  from LEUP_correct[of "T (J_conjugation A)"] obtain F0 where
    F0: "LEUP (T (J_conjugation A)) = Inr F0" and g0: "good_fact (ncol A) (nrow A) (nrow A) F0"
    by auto
  note g = good_factD[OF g0]
  have "LEUP_inplace (\<lparr>L = identity (nrow A), E = A, U = identity (nrow A), P = identity (nrow A)\<rparr>
          \<lparr>E := T (J_conjugation A)\<rparr>) = Inr F0"
    using F0 sq by (simp add: LEUP_def)
  then have "PUEL_inplace \<lparr>L = identity (nrow A), E = A, U = identity (nrow A), P = identity (nrow A)\<rparr> =
    Inr \<lparr>L = T (J_conjugation (L F0)), E = T (J_conjugation (E F0)),
         U = T (J_conjugation (U F0)), P = T (J_conjugation (P F0))\<rparr>"
    by (simp add: PUEL_inplace_def then_fact_def)
  moreover have "PUEL A = Inr \<lparr>L = J_conjugation (T (L F0)), E = J_conjugation (T (E F0)),
         U = J_conjugation (T (U F0)), P = J_conjugation (T (P F0))\<rparr>"
    by (simp add: PUEL_def then_fact_def F0)
  ultimately show ?thesis using g(1,6,11,15) by (simp add: J_T)
qed

subsection \<open>The identity matrix\<close>

lemma lower_bound_single: "lower_bound [(k, a)] 0 = Some (k, a)"
  by (simp add: lower_bound_def)

lemma get_pivots_identity_aux:
  "k \<le> n \<Longrightarrow> fold (\<lambda>j p2c. update_pivot (identity n :: 'a::field ColumnMatrix) p2c j 0) [0..<k] Map.empty
     = (\<lambda>r. if r < k then Some [r] else None)"
proof (induction k)
  case 0
  show ?case by simp
next
  case (Suc k)
  then have IH: "fold (\<lambda>j p2c. update_pivot (identity n :: 'a ColumnMatrix) p2c j 0) [0..<k] Map.empty
     = (\<lambda>r. if r < k then Some [r] else None)" and kn: "k < n" by simp_all
  have "fold (\<lambda>j p2c. update_pivot (identity n :: 'a ColumnMatrix) p2c j 0) [0..<Suc k] Map.empty
     = update_pivot (identity n :: 'a ColumnMatrix) (\<lambda>r. if r < k then Some [r] else None) k 0"
    by (simp only: upt_Suc_append[OF le0] fold_append fold_simps comp_apply IH)
  also have "\<dots> = (\<lambda>r. if r < Suc k then Some [r] else None)"
    by (rule ext) (simp add: update_pivot_def kn lower_bound_single bucket_def)
  finally show ?case .
qed

lemma get_pivots_identity: "get_pivots (identity n :: 'a::field ColumnMatrix) = id_piv n 0"
  by (simp add: get_pivots_def get_pivots_identity_aux id_piv_def)

lemma vec_of_zero: "(\<And>k. k < n \<Longrightarrow> f k = 0) \<Longrightarrow> vec_of n f = []"
  by (simp add: vec_of_def filter_empty_conv)

lemma vadd_Nil2 [simp]: "vadd y [] = y"
  by (cases y) simp_all

lemma pivot_step_identity:
  assumes "i < n"
  shows "pivot_step n i i i (id_fact n :: 'a::field SparseFact) (id_piv n i) [0..<i] (replicate i 1)
    = Inr (id_fact n, id_piv n (Suc i), 1)"
proof -
  have u: "axpy_pivs [(i, 1 :: 'a)] (replicate i 1) [0..<i] [(i, 1)] = [(i, 1)]"
    by (simp add: axpy_pivs_def vec_of_zero getval_Cons)
  have l: "axpy (1 :: 'a) [(i, 1)] (Suc i) n [(i, 1)] = [(i, 1)]"
    by (simp add: axpy_def vrange_def vscale_def)
  have b: "bucket (id_piv n i) i = [i]" using assms by (simp add: bucket_def id_piv_def)
  have p: "(id_piv n i)(i := None) = id_piv n (Suc i)"
    by (rule ext) (auto simp: id_piv_def)
  have e: "ent (identity n :: 'a ColumnMatrix) i i = 1" using assms by (simp add: ent_identity)
  have c: "(col (identity n :: 'a ColumnMatrix))[i := [(i, 1)]] = col (identity n)"
    using assms by (simp add: list_eq_iff_nth_eq nth_list_update)
  show ?thesis
    using assms by (simp add: pivot_step_def id_fact_def Let_def u l b p e c)
qed

lemma LEUP_loop_identity:
  "i \<le> n \<Longrightarrow> LEUP_loop n n i i (id_fact n :: 'a::field SparseFact) (id_piv n i) [0..<i] (replicate i 1)
     = Inr (id_fact n, n, [0..<n], replicate n 1)"
proof (induction "n - i" arbitrary: i)
  case 0
  then have "i = n" by simp
  then show ?case by (subst LEUP_loop.simps) simp
next
  case (Suc d)
  then have lt: "i < n" and d: "d = n - Suc i" and le: "Suc i \<le> n" by simp_all
  have ps: "id_piv n i i = Some [i]" using lt by (simp add: id_piv_def)
  have r: "replicate i (1 :: 'a) @ [1] = replicate (Suc i) 1"
    by (simp add: replicate_append_same)
  show ?case
    by (subst LEUP_loop.simps) (simp add: lt ps pivot_step_identity Suc(1)[OF d le, simplified] r)
qed

lemma LEUP_identity: "LEUP (identity n :: 'a::field ColumnMatrix) = Inr (id_fact n)"
proof -
  have l: "LEUP_loop n n 0 0 (id_fact n :: 'a SparseFact) (id_piv n 0) [] [] = Inr (id_fact n, n, [0..<n], replicate n 1)"
    using LEUP_loop_identity[of 0 n] by simp
  have e: "E (id_fact n :: 'a SparseFact) = identity n" "P (id_fact n :: 'a SparseFact) = identity n"
    by (simp_all add: id_fact_def)
  have "LEUP_inplace (id_fact n :: 'a SparseFact) = Inr ((id_fact n)\<lparr>P := T (identity n)\<rparr>)"
    unfolding LEUP_inplace_def by (simp add: e get_pivots_identity l)
  then show ?thesis
    by (simp add: LEUP_def id_fact_def T_identity)
qed

lemma PLEU_identity: "PLEU (identity n :: 'a::field ColumnMatrix) = Inr (id_fact n)"
  by (simp add: PLEU_def T_identity LEUP_identity then_fact_def) (simp add: id_fact_def T_identity)

lemma UELP_identity: "UELP (identity n :: 'a::field ColumnMatrix) = Inr (id_fact n)"
  by (simp add: UELP_def J_identity LEUP_identity then_fact_def) (simp add: id_fact_def J_identity)

lemma PUEL_identity: "PUEL (identity n :: 'a::field ColumnMatrix) = Inr (id_fact n)"
  by (simp add: PUEL_def J_identity T_identity LEUP_identity then_fact_def)
    (simp add: id_fact_def J_identity T_identity)

lemma is_EL_identity: "is_EL (identity n :: 'a::field ColumnMatrix)"
proof -
  have "filter (\<lambda>v. v \<noteq> []) (map (\<lambda>j. [(j, 1 :: 'a)]) [0..<n]) = map (\<lambda>j. [(j, 1)]) [0..<n]"
    by (simp add: filter_map comp_def)
  then show ?thesis
    by (simp add: is_EL_def identity_def comp_def sorted_wrt_map)
qed

lemma shapes_identity:
  "is_upper (identity n :: 'a::field ColumnMatrix)" "is_lower (identity n :: 'a ColumnMatrix)"
  "is_pivot_matrix (identity n :: 'a ColumnMatrix)" "is_EL (identity n :: 'a ColumnMatrix)"
  "is_EU (identity n :: 'a ColumnMatrix)" "is_ELhat (identity n :: 'a ColumnMatrix)"
  "is_EUhat (identity n :: 'a ColumnMatrix)"
  using perm_cols_pivot[OF perm_cols_identity, of n]
  by (simp_all add: tri_identity is_EL_identity is_EU_def is_ELhat_def is_EUhat_def T_identity J_identity)

subsection \<open>The loop of \<open>extract_row_scale\<close>\<close>

lemma length_fold_update: "length (fold (\<lambda>k c. c[k := v]) ks cs) = length cs"
  by (induction ks arbitrary: cs) simp_all

lemma nth_fold_update:
  "r < length cs \<Longrightarrow> fold (\<lambda>k c. c[k := v]) ks cs ! r = (if r \<in> set ks then v else cs ! r)"
  by (induction ks arbitrary: cs) (auto simp: nth_list_update length_fold_update)

lemma length_fill_ones [simp]: "length (fill_ones a b cs) = length cs"
  by (simp add: fill_ones_def length_fold_update)

lemma nth_fill_ones:
  "r < length cs \<Longrightarrow> fill_ones a b cs ! r = (if a \<le> r \<and> r < b then 1 else cs ! r)"
  by (simp add: fill_ones_def nth_fold_update)

declare extract_row_scale_loop.simps [simp del]

lemma ers_stop: "\<not> (i < m \<and> j < n) \<Longrightarrow> extract_row_scale_loop m n i j Em cs = Inr (Em, cs, i)"
  by (subst extract_row_scale_loop.simps) auto

lemma ers_empty:
  "i < m \<Longrightarrow> j < n \<Longrightarrow> col Em ! j = [] \<Longrightarrow>
   extract_row_scale_loop m n i j Em cs = Inr (Em, fill_ones i m cs, m)"
  by (subst extract_row_scale_loop.simps) (simp add: nzbegin_def)

lemma ers_step:
  "i < m \<Longrightarrow> j < n \<Longrightarrow> col Em ! j = p # t \<Longrightarrow> max i (fst p) < m \<Longrightarrow>
   extract_row_scale_loop m n i j Em cs =
   extract_row_scale_loop m n (Suc (max i (fst p))) (Suc j)
     (Em\<lparr>col := (col Em)[j := (fst p, 1) # t]\<rparr>) ((fill_ones i (fst p) cs)[max i (fst p) := snd p])"
  by (subst extract_row_scale_loop.simps) (auto simp: nzbegin_def Let_def max_def)

lemma ers_total:
  assumes "length (col Em) = n" "length cs = m" "i \<le> m"
    "\<forall>j'<n. \<forall>p\<in>set (col Em ! j'). fst p < m"
  shows "\<exists>E' cs' i'. extract_row_scale_loop m n i j Em cs = Inr (E', cs', i') \<and>
           length cs' = m \<and> i \<le> i' \<and> i' \<le> m \<and> nrow E' = nrow Em \<and> ncol E' = ncol Em \<and>
           length (col E') = n \<and>
           (\<forall>j'<n. col E' ! j' = col Em ! j' \<or> (j \<le> j' \<and> col E' ! j' = normal_col (col Em ! j'))) \<and>
           (\<forall>r<i. cs' ! r = cs ! r)"
  using assms
proof (induction "m - i" arbitrary: i j Em cs rule: less_induct)
  case less
  show ?case
  proof (cases "i < m \<and> j < n")
    case False
    then show ?thesis using less.prems by (simp add: ers_stop)
  next
    case True
    then have im: "i < m" and jn: "j < n" by simp_all
    show ?thesis
    proof (cases "col Em ! j")
      case Nil
      then show ?thesis using less.prems im jn by (simp add: ers_empty nth_fill_ones)
    next
      case (Cons p t)
      have pm: "fst p < m" using less.prems(4) jn Cons by auto
      then have mx: "max i (fst p) < m" using im by simp
      let ?E = "Em\<lparr>col := (col Em)[j := (fst p, 1) # t]\<rparr>"
      let ?cs = "(fill_ones i (fst p) cs)[max i (fst p) := snd p]"
      let ?i = "Suc (max i (fst p))"
      have b: "\<forall>j'<n. \<forall>q\<in>set (col ?E ! j'). fst q < m"
      proof (intro allI impI ballI)
        fix j' q assume "j' < n" "q \<in> set (col ?E ! j')"
        then show "fst q < m"
          using less.prems(1,4) Cons pm by (cases "j' = j") (auto simp: nth_list_update)
      qed
      have "m - ?i < m - i" using mx by auto
      from less.hyps[OF this, of ?E ?cs "Suc j"] b less.prems(1,2) mx
      obtain E' cs' i' where r: "extract_row_scale_loop m n ?i (Suc j) ?E ?cs = Inr (E', cs', i')"
        "length cs' = m" "?i \<le> i'" "i' \<le> m" "nrow E' = nrow Em" "ncol E' = ncol Em"
        "length (col E') = n"
        "\<forall>j'<n. col E' ! j' = col ?E ! j' \<or> (Suc j \<le> j' \<and> col E' ! j' = normal_col (col ?E ! j'))"
        "\<forall>r<?i. cs' ! r = ?cs ! r"
        by auto
      have c: "\<forall>j'<n. col E' ! j' = col Em ! j' \<or> (j \<le> j' \<and> col E' ! j' = normal_col (col Em ! j'))"
      proof (intro allI impI)
        fix j' assume j': "j' < n"
        show "col E' ! j' = col Em ! j' \<or> (j \<le> j' \<and> col E' ! j' = normal_col (col Em ! j'))"
        proof (cases "j' = j")
          case True
          then show ?thesis using r(8) j' less.prems(1) Cons by (auto simp: normal_col_def)
        next
          case False
          then show ?thesis using r(8) j' less.prems(1) by (auto simp: nth_list_update)
        qed
      qed
      have d: "\<forall>r<i. cs' ! r = cs ! r"
      proof (intro allI impI)
        fix r assume "r < i"
        then show "cs' ! r = cs ! r"
          using r(9) less.prems(2) im by (auto simp: nth_list_update nth_fill_ones)
      qed
      show ?thesis
        using r(2-7) c d mx ers_step[OF im jn Cons mx, of cs] r(1) by auto
    qed
  qed
qed

lemma ers_nonpivot:
  assumes "extract_row_scale_loop m n i j Em cs = Inr (E', cs', i')"
    "length (col Em) = n" "length cs = m" "i \<le> m"
    "\<forall>j'<n. \<forall>p\<in>set (col Em ! j'). fst p < m"
    "\<forall>j'. j \<le> j' \<and> j' < n \<and> col Em ! j' \<noteq> [] \<longrightarrow> i \<le> fst (hd (col Em ! j'))"
    "\<forall>j' j''. j \<le> j' \<and> j' < j'' \<and> j'' < n \<and> col Em ! j' \<noteq> [] \<and> col Em ! j'' \<noteq> [] \<longrightarrow>
       fst (hd (col Em ! j')) < fst (hd (col Em ! j''))"
    "i \<le> r" "r < m" "fill_ones i' m cs' ! r \<noteq> 1"
  shows "\<exists>j'. j \<le> j' \<and> j' < n \<and> col Em ! j' \<noteq> [] \<and> fst (hd (col Em ! j')) = r"
  using assms
proof (induction "m - i" arbitrary: i j Em cs rule: less_induct)
  case less
  note tot = ers_total[OF less.prems(2,3,4,5), of j]
  show ?case
  proof (cases "i < m \<and> j < n")
    case False
    then have "i' = i" "cs' = cs" using less.prems(1) by (simp_all add: ers_stop)
    then show ?thesis using less.prems(3,8,9,10) by (simp add: nth_fill_ones)
  next
    case True
    then have im: "i < m" and jn: "j < n" by simp_all
    show ?thesis
    proof (cases "col Em ! j")
      case Nil
      then have "i' = m" "cs' = fill_ones i m cs" using less.prems(1) im jn by (auto simp: ers_empty)
      then show ?thesis using less.prems(3,8,9,10) by (simp add: nth_fill_ones)
    next
      case (Cons p t)
      have pm: "fst p < m" using less.prems(5) jn Cons by auto
      have ip: "i \<le> fst p" using less.prems(6) jn Cons by force
      then have mx: "max i (fst p) = fst p" by simp
      let ?E = "Em\<lparr>col := (col Em)[j := (fst p, 1) # t]\<rparr>"
      let ?cs = "(fill_ones i (fst p) cs)[fst p := snd p]"
      let ?i = "Suc (fst p)"
      have st: "extract_row_scale_loop m n ?i (Suc j) ?E ?cs = Inr (E', cs', i')"
        using ers_step[OF im jn Cons, of cs] pm mx less.prems(1) by simp
      have b: "\<forall>j'<n. \<forall>q\<in>set (col ?E ! j'). fst q < m"
      proof (intro allI impI ballI)
        fix j' q assume "j' < n" "q \<in> set (col ?E ! j')"
        then show "fst q < m"
          using less.prems(2,5) Cons pm by (cases "j' = j") (auto simp: nth_list_update)
      qed
      have l: "length (col ?E) = n" "length ?cs = m" "?i \<le> m"
        using less.prems(2,3) pm by simp_all
      from ers_total[OF l b, of "Suc j"] st
      have i': "?i \<le> i'" "i' \<le> m" "length cs' = m" and keep: "\<forall>r<?i. cs' ! r = ?cs ! r"
        by auto
      show ?thesis
      proof (cases "r \<le> fst p")
        case True
        show ?thesis
        proof (cases "r = fst p")
          case True
          then show ?thesis using jn Cons by (intro exI[of _ j]) simp
        next
          case False
          then have rp: "r < fst p" using True by simp
          then have "cs' ! r = 1"
            using keep less.prems(3,8) pm by (simp add: nth_list_update nth_fill_ones)
          moreover have "fill_ones i' m cs' ! r = cs' ! r"
            using i' rp less.prems(9) by (simp add: nth_fill_ones)
          ultimately show ?thesis using less.prems(10) by simp
        qed
      next
        case False
        then have ri: "?i \<le> r" by simp
        have mono: "\<forall>j'. Suc j \<le> j' \<and> j' < n \<and> col ?E ! j' \<noteq> [] \<longrightarrow> ?i \<le> fst (hd (col ?E ! j'))"
        proof (intro allI impI)
          fix j' assume a: "Suc j \<le> j' \<and> j' < n \<and> col ?E ! j' \<noteq> []"
          then have ne: "j' \<noteq> j" by simp
          then have e: "col ?E ! j' = col Em ! j'" by simp
          have "col Em ! j' \<noteq> []" using a ne by simp
          then show "?i \<le> fst (hd (col ?E ! j'))"
            using less.prems(7)[rule_format, of j j'] a Cons e by simp
        qed
        have incr: "\<forall>j' j''. Suc j \<le> j' \<and> j' < j'' \<and> j'' < n \<and> col ?E ! j' \<noteq> [] \<and> col ?E ! j'' \<noteq> [] \<longrightarrow>
            fst (hd (col ?E ! j')) < fst (hd (col ?E ! j''))"
        proof (intro allI impI)
          fix j' j'' assume a: "Suc j \<le> j' \<and> j' < j'' \<and> j'' < n \<and> col ?E ! j' \<noteq> [] \<and> col ?E ! j'' \<noteq> []"
          then have ne: "j' \<noteq> j" "j'' \<noteq> j" by simp_all
          then have e: "col ?E ! j' = col Em ! j'" "col ?E ! j'' = col Em ! j''"
            by simp_all
          have "j \<le> j' \<and> j' < j'' \<and> j'' < n \<and> col Em ! j' \<noteq> [] \<and> col Em ! j'' \<noteq> []"
            using a ne by simp
          then show "fst (hd (col ?E ! j')) < fst (hd (col ?E ! j''))"
            using less.prems(7)[rule_format, of j' j''] e by simp
        qed
        have "m - ?i < m - i" using pm ip by auto
        from less.hyps[OF this st l b mono incr ri less.prems(9,10)]
        obtain j' where j': "Suc j \<le> j'" "j' < n" "col ?E ! j' \<noteq> []" "fst (hd (col ?E ! j')) = r"
          by auto
        from j'(1) have "j' \<noteq> j" by simp
        then have "col ?E ! j' = col Em ! j'" by simp
        then show ?thesis using j' by (intro exI[of _ j']) simp
      qed
    qed
  qed
qed

lemma sorted_wrt_filter_nth:
  "sorted_wrt R (map f (filter Q xs)) \<Longrightarrow> a < b \<Longrightarrow> b < length xs \<Longrightarrow> Q (xs ! a) \<Longrightarrow> Q (xs ! b) \<Longrightarrow>
   R (f (xs ! a)) (f (xs ! b))"
proof (induction xs arbitrary: a b)
  case Nil
  then show ?case by simp
next
  case (Cons x xs)
  obtain b' where b: "b = Suc b'" using Cons.prems(2) by (cases b) simp_all
  show ?case
  proof (cases a)
    case 0
    have "xs ! b' \<in> set (filter Q xs)" using Cons.prems(3,5) b by simp
    then show ?thesis using Cons.prems(1,4) 0 b by simp
  next
    case (Suc a')
    have "sorted_wrt R (map f (filter Q xs))" using Cons.prems(1) by (simp split: if_splits)
    from Cons.IH[OF this, of a' b'] show ?thesis using Cons.prems Suc b by simp
  qed
qed

lemma is_EL_D:
  "is_EL A \<Longrightarrow> a < b \<Longrightarrow> b < length (col A) \<Longrightarrow> col A ! a \<noteq> [] \<Longrightarrow> col A ! b \<noteq> [] \<Longrightarrow>
   fst (hd (col A ! a)) < fst (hd (col A ! b))"
  unfolding is_EL_def by (rule sorted_wrt_filter_nth[where Q = "\<lambda>v. v \<noteq> []"])

lemma filter_takeWhile_nth:
  "filter Q xs = takeWhile Q xs \<Longrightarrow> a < b \<Longrightarrow> b < length xs \<Longrightarrow> Q (xs ! b) \<Longrightarrow> Q (xs ! a)"
proof (induction xs arbitrary: a b)
  case Nil
  then show ?case by simp
next
  case (Cons x xs)
  obtain b' where b: "b = Suc b'" using Cons.prems(2) by (cases b) simp_all
  have mem: "xs ! b' \<in> set (filter Q xs)" using Cons.prems(3,4) b by simp
  show ?case
  proof (cases "Q x")
    case False
    then have "filter Q xs = []" using Cons.prems(1) by simp
    then show ?thesis using mem by simp
  next
    case True
    then have e: "filter Q xs = takeWhile Q xs" using Cons.prems(1) by simp
    show ?thesis
    proof (cases a)
      case 0
      then show ?thesis using True by simp
    next
      case (Suc a')
      from Cons.IH[OF e, of a' b'] show ?thesis using Cons.prems Suc b by simp
    qed
  qed
qed

lemma pivot_ind_normal_col:
  "col E' ! j = col Em ! j \<or> col E' ! j = normal_col (col Em ! j) \<Longrightarrow> pivot_ind E' j = pivot_ind Em j"
  by (auto simp: pivot_ind_def nzbegin_def normal_col_def split: list.splits)

lemma pivot_ind_Some_iff: "pivot_ind Em j = Some r \<longleftrightarrow> col Em ! j \<noteq> [] \<and> fst (hd (col Em ! j)) = r"
  by (auto simp: pivot_ind_def nzbegin_def split: list.splits)

lemma wf_mat_bound: "wf_mat A \<Longrightarrow> \<forall>j'<ncol A. \<forall>p\<in>set (col A ! j'). fst p < nrow A"
  using wf_matD wf_vec_bound by (metis wf_mat_len)

lemma extract_row_scale_total:
  fixes Em :: "'a::field ColumnMatrix"
  assumes "wf_mat Em"
  shows "\<exists>E' cs. extract_row_scale Em = Inr (E', cs) \<and> nrow E' = nrow Em \<and> ncol E' = ncol Em \<and>
           length (col E') = ncol Em \<and> length cs = nrow Em \<and>
           (\<forall>j<ncol Em. col E' ! j = col Em ! j \<or> col E' ! j = normal_col (col Em ! j)) \<and>
           (is_EL Em \<longrightarrow> (\<forall>r<nrow Em. cs ! r \<noteq> 1 \<longrightarrow> (\<exists>j<ncol Em. pivot_ind Em j = Some r)))"
proof -
  let ?m = "nrow Em" and ?n = "ncol Em"
  have l: "length (col Em) = ?n" "length (replicate ?m (0::'a)) = ?m" "0 \<le> ?m"
    using assms by (simp_all add: wf_mat_len)
  note b = wf_mat_bound[OF assms]
  from ers_total[OF l b, of 0] obtain E' cs' i' where
    r: "extract_row_scale_loop ?m ?n 0 0 Em (replicate ?m 0) = Inr (E', cs', i')"
    "length cs' = ?m" "i' \<le> ?m" "nrow E' = ?m" "ncol E' = ?n" "length (col E') = ?n"
    "\<forall>j'<?n. col E' ! j' = col Em ! j' \<or> (0 \<le> j' \<and> col E' ! j' = normal_col (col Em ! j'))"
    by auto
  have e: "extract_row_scale Em = Inr (E', fill_ones i' ?m cs')"
    by (simp add: extract_row_scale_def r(1))
  have np: "\<exists>j<?n. pivot_ind Em j = Some r" if el: "is_EL Em" and rm: "r < ?m"
    and ne: "fill_ones i' ?m cs' ! r \<noteq> 1" for r
  proof -
    have incr: "\<forall>j' j''. 0 \<le> j' \<and> j' < j'' \<and> j'' < ?n \<and> col Em ! j' \<noteq> [] \<and> col Em ! j'' \<noteq> [] \<longrightarrow>
        fst (hd (col Em ! j')) < fst (hd (col Em ! j''))"
      using is_EL_D[OF el] l(1) by simp
    have mono: "\<forall>j'. 0 \<le> j' \<and> j' < ?n \<and> col Em ! j' \<noteq> [] \<longrightarrow> 0 \<le> fst (hd (col Em ! j'))" by simp
    from ers_nonpivot[OF r(1) l b mono incr _ rm ne]
    show ?thesis by (auto simp: pivot_ind_Some_iff)
  qed
  show ?thesis
    using e r(2-7) np by (intro exI[of _ E'] exI[of _ "fill_ones i' ?m cs'"]) auto
qed

subsection \<open>The loops of \<open>EL_L_commute\<close>\<close>

lemma map_entries_eq:
  "\<forall>p\<in>set v. fst p < length idx \<Longrightarrow>
   map_entries idx v = Inr (map (\<lambda>p. (the (idx ! fst p), snd p)) (takeWhile (\<lambda>p. idx ! fst p \<noteq> None) v))"
  by (induction v) (auto split: option.splits)

lemma wf_map_entries:
  assumes "wf_vec (length idx) v"
    "\<And>a b ra rb. a < b \<Longrightarrow> b < length idx \<Longrightarrow> idx ! a = Some ra \<Longrightarrow> idx ! b = Some rb \<Longrightarrow> ra < rb"
    "\<And>a r. a < length idx \<Longrightarrow> idx ! a = Some r \<Longrightarrow> r < m"
  shows "wf_vec m (map (\<lambda>p. (the (idx ! fst p), snd p)) (takeWhile (\<lambda>p. idx ! fst p \<noteq> None) v))"
  using assms(1)
proof (induction v)
  case Nil
  show ?case by simp
next
  case (Cons p v)
  then have p: "fst p < length idx" "snd p \<noteq> 0" "\<forall>q\<in>set v. fst p < fst q" and v: "wf_vec (length idx) v"
    by (simp_all add: wf_vec_Cons)
  note IH = Cons.IH[OF v]
  show ?case
  proof (cases "idx ! fst p")
    case None
    then show ?thesis by simp
  next
    case (Some r)
    have "r < the (idx ! fst q)" if "q \<in> set (takeWhile (\<lambda>p. idx ! fst p \<noteq> None) v)" for q
    proof -
      have qv: "q \<in> set v" using that by (rule set_takeWhileD[THEN conjunct1])
      have "idx ! fst q \<noteq> None" using that by (rule set_takeWhileD[THEN conjunct2])
      then obtain rq where rq: "idx ! fst q = Some rq" by auto
      have "fst q < length idx" using wf_vec_bound[OF v qv] .
      from assms(2)[OF _ this Some rq] p(3) qv rq show ?thesis by simp
    qed
    then show ?thesis
      using Some IH p assms(3)[OF p(1) Some] by (simp add: wf_vec_Cons)
  qed
qed

lemma commute_cols_total:
  assumes "\<forall>ell\<in>set ells. ell < length idx \<and> ell < length (col Lm) \<and> (\<forall>p\<in>set (col Lm ! ell). fst p < length idx)"
    "\<forall>ell<length idx. \<forall>r. idx ! ell = Some r \<longrightarrow> r < length (col Ltilde)"
  shows "\<exists>M. commute_cols idx Lm ells Ltilde = Inr M \<and> nrow M = nrow Ltilde \<and> ncol M = ncol Ltilde \<and>
           length (col M) = length (col Ltilde) \<and>
           (\<forall>c<length (col Ltilde). col M ! c = col Ltilde ! c \<or>
              (\<exists>ell\<in>set ells. idx ! ell = Some c \<and> map_entries idx (col Lm ! ell) = Inr (col M ! c)))"
  using assms
proof (induction ells arbitrary: Ltilde)
  case Nil
  show ?case by simp
next
  case (Cons ell ells)
  then have ell: "ell < length idx" "ell < length (col Lm)" "\<forall>p\<in>set (col Lm ! ell). fst p < length idx"
    and rest: "\<forall>ell\<in>set ells. ell < length idx \<and> ell < length (col Lm) \<and> (\<forall>p\<in>set (col Lm ! ell). fst p < length idx)"
    by simp_all
  show ?case
  proof (cases "idx ! ell")
    case None
    then show ?thesis by simp
  next
    case (Some j_ell)
    then have jl: "j_ell < length (col Ltilde)" using Cons.prems(2) ell(1) by simp
    obtain v where v: "map_entries idx (col Lm ! ell) = Inr v" using map_entries_eq[OF ell(3)] by simp
    let ?L = "Ltilde\<lparr>col := (col Ltilde)[j_ell := v]\<rparr>"
    have "\<forall>ell<length idx. \<forall>r. idx ! ell = Some r \<longrightarrow> r < length (col ?L)"
      using Cons.prems(2) by simp
    from Cons.IH[OF rest this] obtain M where
      M: "commute_cols idx Lm ells ?L = Inr M" "nrow M = nrow Ltilde" "ncol M = ncol Ltilde"
      "length (col M) = length (col Ltilde)"
      "\<forall>c<length (col Ltilde). col M ! c = col ?L ! c \<or>
          (\<exists>ell\<in>set ells. idx ! ell = Some c \<and> map_entries idx (col Lm ! ell) = Inr (col M ! c))"
      by auto
    have e: "commute_cols idx Lm (ell # ells) Ltilde = Inr M"
      using Some jl ell(2) v M(1) by simp
    have "\<forall>c<length (col Ltilde). col M ! c = col Ltilde ! c \<or>
              (\<exists>ell\<in>set (ell # ells). idx ! ell = Some c \<and> map_entries idx (col Lm ! ell) = Inr (col M ! c))"
    proof (intro allI impI)
      fix c assume c: "c < length (col Ltilde)"
      from M(5) c have d: "col M ! c = col ?L ! c \<or>
          (\<exists>ell\<in>set ells. idx ! ell = Some c \<and> map_entries idx (col Lm ! ell) = Inr (col M ! c))" by simp
      show "col M ! c = col Ltilde ! c \<or>
              (\<exists>ell\<in>set (ell # ells). idx ! ell = Some c \<and> map_entries idx (col Lm ! ell) = Inr (col M ! c))"
      proof (cases "c = j_ell")
        case True
        then show ?thesis using d Some v jl by auto
      next
        case False
        then show ?thesis using d by auto
      qed
    qed
    then show ?thesis using e M(2,3,4) by blast
  qed
qed

lemma wf_row_scale_vec:
  "wf_vec m v \<Longrightarrow> wf_vec m (filter (\<lambda>p. snd p \<noteq> 0) (map (\<lambda>p. (fst p, f (fst p) * snd p)) v))"
  by (induction v) (auto simp: wf_vec_Cons)

lemma row_scale_dims [simp]:
  "nrow (row_scale cs A) = nrow A" "ncol (row_scale cs A) = ncol A"
  "length (col (row_scale cs A)) = length (col A)"
  by (simp_all add: row_scale_def)

lemma wf_row_scale: "wf_mat A \<Longrightarrow> wf_mat (row_scale cs A)"
  by (rule wf_matI) (simp_all add: row_scale_def wf_mat_len wf_matD wf_row_scale_vec)

lemma pivot_ind_bound: "wf_mat Em \<Longrightarrow> j < ncol Em \<Longrightarrow> pivot_ind Em j = Some r \<Longrightarrow> r < nrow Em"
  using wf_vec_bound[OF wf_matD, of Em j "hd (col Em ! j)"] by (auto simp: pivot_ind_Some_iff)

lemma EL_L_commute_unfold:
  fixes Em Lm :: "'a::field ColumnMatrix"
  assumes "wf_mat Em" "ncol Em \<le> length (col Lm)"
    "\<forall>ell<ncol Em. \<forall>p\<in>set (col Lm ! ell). fst p < ncol Em"
  shows "\<exists>cs M0. EL_L_commute Em Lm = Inr (row_scale cs M0) \<and> length cs = nrow Em \<and>
     nrow M0 = nrow Em \<and> ncol M0 = nrow Em \<and> length (col M0) = nrow Em \<and>
     (is_EL Em \<longrightarrow> (\<forall>r<nrow Em. cs ! r \<noteq> 1 \<longrightarrow> (\<exists>j<ncol Em. pivot_ind Em j = Some r))) \<and>
     (\<forall>c<nrow Em. col M0 ! c = [(c, 1)] \<or>
        (\<exists>ell<ncol Em. pivot_ind Em ell = Some c \<and>
           map_entries (map (pivot_ind Em) [0..<ncol Em]) (col Lm ! ell) = Inr (col M0 ! c)))"
proof -
  let ?m = "nrow Em" and ?n = "ncol Em"
  let ?idx = "map (pivot_ind Em) [0..<?n]"
  from extract_row_scale_total[OF assms(1)] obtain E' cs where
    e: "extract_row_scale Em = Inr (E', cs)" "nrow E' = ?m" "ncol E' = ?n" "length cs = ?m"
    "\<forall>j<?n. col E' ! j = col Em ! j \<or> col E' ! j = normal_col (col Em ! j)"
    "is_EL Em \<longrightarrow> (\<forall>r<?m. cs ! r \<noteq> 1 \<longrightarrow> (\<exists>j<?n. pivot_ind Em j = Some r))"
    by blast
  have idx: "map (pivot_ind E') [0..<?n] = ?idx"
    using e(5) by (auto intro: pivot_ind_normal_col)
  have a1: "\<forall>ell\<in>set [0..<?n]. ell < length ?idx \<and> ell < length (col Lm) \<and>
      (\<forall>p\<in>set (col Lm ! ell). fst p < length ?idx)"
    using assms(2,3) by simp
  have a2: "\<forall>ell<length ?idx. \<forall>r. ?idx ! ell = Some r \<longrightarrow> r < length (col (identity ?m :: 'a ColumnMatrix))"
    using pivot_ind_bound[OF assms(1)] by simp
  from commute_cols_total[OF a1 a2] obtain M0 where
    M: "commute_cols ?idx Lm [0..<?n] (identity ?m) = Inr M0" "nrow M0 = ?m" "ncol M0 = ?m"
    "length (col M0) = ?m"
    "\<forall>c<?m. col M0 ! c = col (identity ?m) ! c \<or>
       (\<exists>ell\<in>set [0..<?n]. ?idx ! ell = Some c \<and> map_entries ?idx (col Lm ! ell) = Inr (col M0 ! c))"
    by auto
  have r: "EL_L_commute Em Lm = Inr (row_scale cs M0)"
    by (simp add: EL_L_commute_def e(1,2,3) idx M(1))
  have c: "\<forall>c<?m. col M0 ! c = [(c, 1)] \<or>
        (\<exists>ell<?n. pivot_ind Em ell = Some c \<and> map_entries ?idx (col Lm ! ell) = Inr (col M0 ! c))"
  proof (intro allI impI)
    fix c assume c: "c < ?m"
    from M(5) c have "col M0 ! c = col (identity ?m) ! c \<or>
       (\<exists>ell\<in>set [0..<?n]. ?idx ! ell = Some c \<and> map_entries ?idx (col Lm ! ell) = Inr (col M0 ! c))"
      by simp
    then show "col M0 ! c = [(c, 1)] \<or>
        (\<exists>ell<?n. pivot_ind Em ell = Some c \<and> map_entries ?idx (col Lm ! ell) = Inr (col M0 ! c))"
      using c by auto
  qed
  show ?thesis
    using r e(4,6) M(2,3,4) c by blast
qed

lemma EL_L_commute_nonpivot_col:
  fixes Em Lm :: "'a::field ColumnMatrix"
  assumes "wf_mat Em" "is_EL Em" "ncol Em \<le> length (col Lm)"
    "\<forall>ell<ncol Em. \<forall>p\<in>set (col Lm ! ell). fst p < ncol Em"
  shows "\<exists>M. EL_L_commute Em Lm = Inr M \<and> nrow M = nrow Em \<and> ncol M = nrow Em \<and>
     (\<forall>c<nrow Em. (\<forall>j<ncol Em. pivot_ind Em j \<noteq> Some c) \<longrightarrow> col M ! c = [(c, 1)])"
proof -
  from EL_L_commute_unfold[OF assms(1,3,4)] assms(2) obtain cs M0 where
    u: "EL_L_commute Em Lm = Inr (row_scale cs M0)" "length cs = nrow Em"
    "nrow M0 = nrow Em" "ncol M0 = nrow Em" "length (col M0) = nrow Em"
    "\<forall>r<nrow Em. cs ! r \<noteq> 1 \<longrightarrow> (\<exists>j<ncol Em. pivot_ind Em j = Some r)"
    "\<forall>c<nrow Em. col M0 ! c = [(c, 1)] \<or>
        (\<exists>ell<ncol Em. pivot_ind Em ell = Some c \<and>
           map_entries (map (pivot_ind Em) [0..<ncol Em]) (col Lm ! ell) = Inr (col M0 ! c))"
    by blast
  have "col (row_scale cs M0) ! c = [(c, 1)]"
    if c: "c < nrow Em" and np: "\<forall>j<ncol Em. pivot_ind Em j \<noteq> Some c" for c
  proof -
    have "cs ! c = 1" using u(6) c np by blast
    moreover have "col M0 ! c = [(c, 1)]" using u(7) c np by blast
    ultimately show ?thesis using c u(5) by (simp add: row_scale_def)
  qed
  then show ?thesis using u(1,3,4) by (intro exI[of _ "row_scale cs M0"]) simp
qed

lemma wf_EL_L_commute:
  fixes Em Lm :: "'a::field ColumnMatrix"
  assumes "wf_mat Em" "is_EL Em" "wf_mat Lm" "nrow Lm = ncol Em" "ncol Lm = ncol Em"
  shows "\<exists>M. EL_L_commute Em Lm = Inr M \<and> wf_mat M \<and> nrow M = nrow Em \<and> ncol M = nrow Em"
proof -
  let ?idx = "map (pivot_ind Em) [0..<ncol Em]"
  have l: "ncol Em \<le> length (col Lm)" using assms(3,5) by (simp add: wf_mat_len)
  have b: "\<forall>ell<ncol Em. \<forall>p\<in>set (col Lm ! ell). fst p < ncol Em"
    using wf_mat_bound[OF assms(3)] assms(4,5) by simp
  from EL_L_commute_unfold[OF assms(1) l b] obtain cs M0 where
    u: "EL_L_commute Em Lm = Inr (row_scale cs M0)"
    "nrow M0 = nrow Em" "ncol M0 = nrow Em" "length (col M0) = nrow Em"
    "\<forall>c<nrow Em. col M0 ! c = [(c, 1)] \<or>
        (\<exists>ell<ncol Em. pivot_ind Em ell = Some c \<and> map_entries ?idx (col Lm ! ell) = Inr (col M0 ! c))"
    by blast
  have len: "length (col Em) = ncol Em" using assms(1) by (rule wf_mat_len)
  have mono: "ra < rb" if "a < b" "b < length ?idx" "?idx ! a = Some ra" "?idx ! b = Some rb" for a b ra rb
    using is_EL_D[OF assms(2), of a b] that len by (simp add: pivot_ind_Some_iff)
  have bd: "r < nrow Em" if "a < length ?idx" "?idx ! a = Some r" for a r
    using pivot_ind_bound[OF assms(1), of a r] that by simp
  have "wf_vec (nrow M0) (col M0 ! c)" if c: "c < ncol M0" for c
  proof -
    have c': "c < nrow Em" using c u(3) by simp
    have "col M0 ! c = [(c, 1)] \<or>
        (\<exists>ell<ncol Em. pivot_ind Em ell = Some c \<and> map_entries ?idx (col Lm ! ell) = Inr (col M0 ! c))"
      using u(5) c' by blast
    then consider "col M0 ! c = [(c, 1)]"
      | ell where "ell < ncol Em" "map_entries ?idx (col Lm ! ell) = Inr (col M0 ! c)"
      by blast
    then show ?thesis
    proof cases
      case 1
      then show ?thesis using c u(2,3) by (simp add: wf_vec_Cons)
    next
      case 2
      have w: "wf_vec (length ?idx) (col Lm ! ell)"
        using wf_matD[OF assms(3), of ell] 2(1) assms(4,5) by simp
      have "\<forall>p\<in>set (col Lm ! ell). fst p < length ?idx" using wf_vec_bound[OF w] by blast
      from map_entries_eq[OF this] 2(2)
      have e: "col M0 ! c = map (\<lambda>p. (the (?idx ! fst p), snd p)) (takeWhile (\<lambda>p. ?idx ! fst p \<noteq> None) (col Lm ! ell))"
        by simp
      have "wf_vec (nrow Em) (map (\<lambda>p. (the (?idx ! fst p), snd p)) (takeWhile (\<lambda>p. ?idx ! fst p \<noteq> None) (col Lm ! ell)))"
        by (rule wf_map_entries[OF w mono bd])
      then show ?thesis using e u(2) by simp
    qed
  qed
  then have "wf_mat M0" using u(3,4) by (intro wf_matI) simp_all
  then show ?thesis using u(1,2,3) by (intro exI[of _ "row_scale cs M0"]) (simp add: wf_row_scale)
qed

subsection \<open>\<open>L_EL_commute\<close> and the normalised pivots\<close>

lemma wf_L_EL_commute:
  fixes EL Lm :: "'a::field ColumnMatrix"
  assumes "is_EL (J_conjugation (T EL))" "nrow Lm = nrow EL" "ncol Lm = nrow EL"
  shows "\<exists>M. L_EL_commute Lm EL = Inr M \<and> wf_mat M \<and> nrow M = ncol EL \<and> ncol M = ncol EL"
proof -
  have w: "wf_mat (J_conjugation (T EL))" "wf_mat (J_conjugation (T Lm))" by (simp_all add: wf_J)
  from wf_EL_L_commute[OF w(1) assms(1) w(2)] assms(2,3) obtain M where
    M: "EL_L_commute (J_conjugation (T EL)) (J_conjugation (T Lm)) = Inr M" "wf_mat M"
    "nrow M = ncol EL" "ncol M = ncol EL"
    by auto
  show ?thesis
    using M by (intro exI[of _ "J_conjugation (T M)"]) (simp add: L_EL_commute_def wf_J)
qed

lemma ers_pivots:
  assumes "extract_row_scale_loop m n i j Em cs = Inr (E', cs', i')"
    "length (col Em) = n" "length cs = m" "i \<le> m"
    "\<forall>j'<n. \<forall>p\<in>set (col Em ! j'). fst p < m"
    "\<forall>j'. j \<le> j' \<and> j' < n \<and> col Em ! j' \<noteq> [] \<longrightarrow> i \<le> fst (hd (col Em ! j'))"
    "\<forall>j' j''. j \<le> j' \<and> j' < j'' \<and> j'' < n \<and> col Em ! j' \<noteq> [] \<and> col Em ! j'' \<noteq> [] \<longrightarrow>
       fst (hd (col Em ! j')) < fst (hd (col Em ! j''))"
    "\<forall>j' j''. j \<le> j' \<and> j' < j'' \<and> j'' < n \<and> col Em ! j'' \<noteq> [] \<longrightarrow> col Em ! j' \<noteq> []"
    "j \<le> c" "c < n" "col Em ! c \<noteq> []"
  shows "col E' ! c = normal_col (col Em ! c) \<and> fst (hd (col Em ! c)) < i' \<and>
         cs' ! fst (hd (col Em ! c)) = snd (hd (col Em ! c))"
  using assms
proof (induction "m - i" arbitrary: i j Em cs rule: less_induct)
  case less
  have hdc: "hd (col Em ! c) \<in> set (col Em ! c)" using less.prems(11) by simp
  have cb: "fst (hd (col Em ! c)) < m" using less.prems(5,10) hdc by blast
  have ic: "i \<le> fst (hd (col Em ! c))" using less.prems(6,9,10,11) by blast
  then have im: "i < m" using cb by simp
  have jn: "j < n" using less.prems(9,10) by simp
  show ?case
  proof (cases "col Em ! j")
    case Nil
    then have "c \<noteq> j" using less.prems(11) by auto
    then have "j < c" using less.prems(9) by simp
    then have "col Em ! j \<noteq> []" using less.prems(8,10,11) by blast
    then show ?thesis using Nil by simp
  next
    case (Cons p t)
    have pm: "fst p < m" using less.prems(5) jn Cons by auto
    have ip: "i \<le> fst p" using less.prems(6) jn Cons by force
    then have mx: "max i (fst p) = fst p" by simp
    let ?E = "Em\<lparr>col := (col Em)[j := (fst p, 1) # t]\<rparr>"
    let ?cs = "(fill_ones i (fst p) cs)[fst p := snd p]"
    let ?i = "Suc (fst p)"
    have st: "extract_row_scale_loop m n ?i (Suc j) ?E ?cs = Inr (E', cs', i')"
      using ers_step[OF im jn Cons, of cs] pm mx less.prems(1) by simp
    have b: "\<forall>j'<n. \<forall>q\<in>set (col ?E ! j'). fst q < m"
    proof (intro allI impI ballI)
      fix j' q assume "j' < n" "q \<in> set (col ?E ! j')"
      then show "fst q < m"
        using less.prems(2,5) Cons pm by (cases "j' = j") (auto simp: nth_list_update)
    qed
    have l: "length (col ?E) = n" "length ?cs = m" "?i \<le> m"
      using less.prems(2,3) pm by simp_all
    from ers_total[OF l b, of "Suc j"] st
    have i': "?i \<le> i'" "i' \<le> m" "length cs' = m" and keep: "\<forall>r<?i. cs' ! r = ?cs ! r"
      and cols: "\<forall>j'<n. col E' ! j' = col ?E ! j' \<or> (Suc j \<le> j' \<and> col E' ! j' = normal_col (col ?E ! j'))"
      by auto
    show ?thesis
    proof (cases "c = j")
      case True
      have "col E' ! j = col ?E ! j" using cols jn by auto
      then have "col E' ! c = normal_col (col Em ! c)"
        using True Cons jn less.prems(2) by (simp add: normal_col_def)
      moreover have "cs' ! fst p = snd p" using keep less.prems(3) pm by simp
      ultimately show ?thesis using True Cons i' by simp
    next
      case False
      then have jc: "Suc j \<le> c" using less.prems(9) by simp
      have same: "col ?E ! j' = col Em ! j'" if "Suc j \<le> j'" for j'
        using that by simp
      have mono: "\<forall>j'. Suc j \<le> j' \<and> j' < n \<and> col ?E ! j' \<noteq> [] \<longrightarrow> ?i \<le> fst (hd (col ?E ! j'))"
      proof (intro allI impI)
        fix j' assume a: "Suc j \<le> j' \<and> j' < n \<and> col ?E ! j' \<noteq> []"
        then have e: "col ?E ! j' = col Em ! j'" using same by blast
        then have "col Em ! j' \<noteq> []" using a by metis
        then show "?i \<le> fst (hd (col ?E ! j'))"
          using less.prems(7)[rule_format, of j j'] a Cons e by simp
      qed
      have incr: "\<forall>j' j''. Suc j \<le> j' \<and> j' < j'' \<and> j'' < n \<and> col ?E ! j' \<noteq> [] \<and> col ?E ! j'' \<noteq> [] \<longrightarrow>
          fst (hd (col ?E ! j')) < fst (hd (col ?E ! j''))"
      proof (intro allI impI)
        fix j' j'' assume a: "Suc j \<le> j' \<and> j' < j'' \<and> j'' < n \<and> col ?E ! j' \<noteq> [] \<and> col ?E ! j'' \<noteq> []"
        then have e: "col ?E ! j' = col Em ! j'" "col ?E ! j'' = col Em ! j''"
          using same[of j'] same[of j''] by simp_all
        have "j \<le> j' \<and> j' < j'' \<and> j'' < n \<and> col Em ! j' \<noteq> [] \<and> col Em ! j'' \<noteq> []"
          using a e by (metis Suc_leD)
        then show "fst (hd (col ?E ! j')) < fst (hd (col ?E ! j''))"
          using less.prems(7)[rule_format, of j' j''] e by simp
      qed
      have pre: "\<forall>j' j''. Suc j \<le> j' \<and> j' < j'' \<and> j'' < n \<and> col ?E ! j'' \<noteq> [] \<longrightarrow> col ?E ! j' \<noteq> []"
      proof (intro allI impI)
        fix j' j'' assume a: "Suc j \<le> j' \<and> j' < j'' \<and> j'' < n \<and> col ?E ! j'' \<noteq> []"
        then have e: "col ?E ! j' = col Em ! j'" "col ?E ! j'' = col Em ! j''"
          using same[of j'] same[of j''] by simp_all
        have "j \<le> j' \<and> j' < j'' \<and> j'' < n \<and> col Em ! j'' \<noteq> []"
          using a e by (metis Suc_leD)
        then have "col Em ! j' \<noteq> []" using less.prems(8) by blast
        then show "col ?E ! j' \<noteq> []" using e by metis
      qed
      have ec: "col ?E ! c = col Em ! c" using same[OF jc] .
      then have ne: "col ?E ! c \<noteq> []" using less.prems(11) by metis
      have "m - ?i < m - i" using pm ip by auto
      from less.hyps[OF this st l b mono incr pre jc less.prems(10) ne]
      show ?thesis unfolding ec .
    qed
  qed
qed

lemma is_EL_reducedD:
  assumes "is_EL_reduced A"
  shows "is_EL A" "\<And>j. j < length (col A) \<Longrightarrow> length (col A ! j) \<le> 1"
    "\<And>a b. a < b \<Longrightarrow> b < length (col A) \<Longrightarrow> col A ! b \<noteq> [] \<Longrightarrow> col A ! a \<noteq> []"
proof -
  show "is_EL A" using assms by (simp add: is_EL_reduced_def)
  show "length (col A ! j) \<le> 1" if "j < length (col A)" for j
    using assms that by (simp add: is_EL_reduced_def list_all_length)
  have f: "filter (\<lambda>v. v \<noteq> []) (col A) = takeWhile (\<lambda>v. v \<noteq> []) (col A)"
    using assms by (simp add: is_EL_reduced_def)
  show "col A ! a \<noteq> []" if "a < b" "b < length (col A)" "col A ! b \<noteq> []" for a b
    using filter_takeWhile_nth[OF f that] .
qed

lemma single_col: "length v \<le> 1 \<Longrightarrow> v \<noteq> [] \<Longrightarrow> v = [hd v]"
  by (cases v) simp_all

lemma extract_row_scale_reduced:
  fixes Em :: "'a::field ColumnMatrix"
  assumes wf: "wf_mat Em" and red: "is_EL_reduced Em"
  shows "\<exists>E' cs. extract_row_scale Em = Inr (E', cs) \<and> length cs = nrow Em \<and>
     (\<forall>j<ncol Em. col Em ! j \<noteq> [] \<longrightarrow> col E' ! j = [(fst (hd (col Em ! j)), 1)]) \<and>
     (\<forall>r<nrow Em. (\<forall>j<ncol Em. pivot_ind Em j \<noteq> Some r) \<longrightarrow> cs ! r = 1) \<and>
     row_scale cs E' = Em"
proof -
  let ?m = "nrow Em" and ?n = "ncol Em"
  note r = is_EL_reducedD[OF red]
  have l: "length (col Em) = ?n" "length (replicate ?m (0::'a)) = ?m" "0 \<le> ?m"
    using wf by (simp_all add: wf_mat_len)
  note b = wf_mat_bound[OF wf]
  from ers_total[OF l b, of 0] obtain E' cs' i' where
    t: "extract_row_scale_loop ?m ?n 0 0 Em (replicate ?m 0) = Inr (E', cs', i')"
    "length cs' = ?m" "i' \<le> ?m" "nrow E' = ?m" "ncol E' = ?n" "length (col E') = ?n"
    "\<forall>j'<?n. col E' ! j' = col Em ! j' \<or> (0 \<le> j' \<and> col E' ! j' = normal_col (col Em ! j'))"
    by auto
  let ?cs = "fill_ones i' ?m cs'"
  have e: "extract_row_scale Em = Inr (E', ?cs)"
    by (simp add: extract_row_scale_def t(1))
  have incr: "\<forall>j' j''. 0 \<le> j' \<and> j' < j'' \<and> j'' < ?n \<and> col Em ! j' \<noteq> [] \<and> col Em ! j'' \<noteq> [] \<longrightarrow>
      fst (hd (col Em ! j')) < fst (hd (col Em ! j''))"
    using is_EL_D[OF r(1)] l(1) by simp
  have mono: "\<forall>j'. 0 \<le> j' \<and> j' < ?n \<and> col Em ! j' \<noteq> [] \<longrightarrow> 0 \<le> fst (hd (col Em ! j'))" by simp
  have pre: "\<forall>j' j''. 0 \<le> j' \<and> j' < j'' \<and> j'' < ?n \<and> col Em ! j'' \<noteq> [] \<longrightarrow> col Em ! j' \<noteq> []"
    using r(3) l(1) by auto
  have piv: "col E' ! c = [(fst (hd (col Em ! c)), 1)] \<and> ?cs ! fst (hd (col Em ! c)) = snd (hd (col Em ! c))"
    if c: "c < ?n" and ne: "col Em ! c \<noteq> []" for c
  proof -
    from ers_pivots[OF t(1) l b mono incr pre _ c ne]
    have p: "col E' ! c = normal_col (col Em ! c)" "fst (hd (col Em ! c)) < i'"
      "cs' ! fst (hd (col Em ! c)) = snd (hd (col Em ! c))" by simp_all
    have s: "col Em ! c = [hd (col Em ! c)]" using single_col[OF r(2) ne] c l(1) by simp
    have "normal_col (col Em ! c) = [(fst (hd (col Em ! c)), 1)]"
      by (subst s) (simp add: normal_col_def)
    then show ?thesis using p t(2,3) by (simp add: nth_fill_ones)
  qed
  have emp: "col E' ! c = []" if c: "c < ?n" and em: "col Em ! c = []" for c
    using t(7) c em by (auto simp: normal_col_def)
  have np: "?cs ! r = 1" if rm: "r < ?m" and no: "\<forall>j<?n. pivot_ind Em j \<noteq> Some r" for r
  proof (rule ccontr)
    assume ne: "?cs ! r \<noteq> 1"
    from ers_nonpivot[OF t(1) l b mono incr _ rm ne] no
    show False by (auto simp: pivot_ind_Some_iff)
  qed
  have cols: "col (row_scale ?cs E') ! c = col Em ! c" if c: "c < ?n" for c
  proof (cases "col Em ! c = []")
    case True
    then show ?thesis using emp[OF c True] c t(6) by (simp add: row_scale_def)
  next
    case False
    have s: "col Em ! c = [hd (col Em ! c)]" using single_col[OF r(2) False] c l(1) by simp
    have "hd (col Em ! c) \<in> set (col Em ! c)" using False by simp
    from wf_vec_nz[OF wf_matD[OF wf c] this] have nz: "snd (hd (col Em ! c)) \<noteq> 0" .
    have "col (row_scale ?cs E') ! c = [(fst (hd (col Em ! c)), snd (hd (col Em ! c)))]"
      using piv[OF c False] nz c t(6) by (simp add: row_scale_def)
    then show ?thesis using s by simp
  qed
  have "col (row_scale ?cs E') = col Em"
    using cols l(1) t(6) by (intro nth_equalityI) simp_all
  then have rt: "row_scale ?cs E' = Em"
    using t(4,5) by (intro ColumnMatrix.equality) simp_all
  show ?thesis
    using e t(2) piv np rt by (intro exI[of _ E'] exI[of _ ?cs]) simp
qed

subsection \<open>The shape of the \<open>E\<close> of \<open>LEUP\<close>\<close>

lemma is_EL_reduced_fixed:
  fixes Em :: "'a::field ColumnMatrix"
  assumes "fixed_cols Em pivs coeff" "sorted_wrt (<) pivs" "length pivs \<le> length (col Em)"
    "\<And>c. length pivs \<le> c \<Longrightarrow> c < length (col Em) \<Longrightarrow> col Em ! c = []"
  shows "is_EL_reduced Em"
proof -
  have c: "col Em = map (\<lambda>k. [(pivs ! k, inverse (coeff ! k))]) [0..<length pivs] @
                   replicate (length (col Em) - length pivs) []"
    using assms(3,4) fixed_colsD[OF assms(1)]
    by (intro nth_equalityI) (auto simp: nth_append)
  have f: "filter (\<lambda>v. v \<noteq> []) (col Em) =
        map (\<lambda>k. [(pivs ! k, inverse (coeff ! k))]) [0..<length pivs]"
    by (subst c) (simp add: filter_map comp_def)
  have t: "takeWhile (\<lambda>v. v \<noteq> []) (col Em) =
        map (\<lambda>k. [(pivs ! k, inverse (coeff ! k))]) [0..<length pivs]"
  proof (subst c, subst takeWhile_append2)
    show "\<And>x. x \<in> set (map (\<lambda>k. [(pivs ! k, inverse (coeff ! k))]) [0..<length pivs]) \<Longrightarrow> x \<noteq> []"
      by auto
    show "map (\<lambda>k. [(pivs ! k, inverse (coeff ! k))]) [0..<length pivs] @
          takeWhile (\<lambda>v. v \<noteq> []) (replicate (length (col Em) - length pivs) []) =
          map (\<lambda>k. [(pivs ! k, inverse (coeff ! k))]) [0..<length pivs]"
      by (cases "length (col Em) - length pivs") simp_all
  qed
  have s: "list_all (\<lambda>v. length v \<le> 1) (col Em)"
    by (subst c) (auto simp: list_all_iff)
  show ?thesis
    using is_EL_fixed[OF assms] f t s by (simp add: is_EL_reduced_def)
qed

lemma LEUP_E_reduced:
  fixes A :: "'a::field ColumnMatrix"
  assumes wf: "wf_mat A"
  shows "\<exists>F. LEUP A = Inr F \<and> is_EL_reduced (E F)"
proof -
  let ?F0 = "\<lparr>L = identity (nrow A), E = A, U = identity (ncol A), P = identity (ncol A)\<rparr>"
  have inv0: "leup_inv A 0 0 ?F0 [] []" using wf by (rule leup_inv_init)
  have pm0: "pm_inv (E ?F0) (get_pivots A) 0 0" using pm_inv_get_pivots[of A] by simp
  from LEUP_loop_inv[OF inv0 pm0 refl refl]
  obtain F1 i j pivs coeff where
    lp: "LEUP_loop (nrow A) (ncol A) 0 0 ?F0 (get_pivots A) [] [] = Inr (F1, j, pivs, coeff)"
    and inv: "leup_inv A i j F1 pivs coeff" and ex: "nrow A \<le> i \<or> ncol A \<le> j"
    by blast
  define F2 where "F2 = fold (finish_col coeff pivs) [j..<ncol A] F1"
  note fin = leup_final[OF inv ex, folded F2_def]
  note p = piv_invD[OF leup_invD(2)[OF inv]]
  note s = shape_invD[OF fin(1)]
  have res: "LEUP_inplace ?F0 = Inr (F2\<lparr>P := T (P F2)\<rparr>)"
    by (simp add: LEUP_inplace_def Let_def lp F2_def)
  have el: "is_EL_reduced (E F2)"
    using fin(3) p(5) by (rule is_EL_reduced_fixed) (use p(1,3) s(12) fin(4) in simp_all)
  with res show ?thesis by (simp add: LEUP_def)
qed

section \<open>The factorizations\<close>

text \<open>
  C1.  For a well-formed matrix over a field each of the four entry points returns a
  bundle, and the bundle's own product gives the input back: \<open>L E U P\<close> for
  \<open>LEUP\<close>, \<open>P L E U\<close> for \<open>PLEU\<close>, \<open>U E L P\<close> for \<open>UELP\<close> and \<open>P U E L\<close> for
  \<open>PUEL\<close>.
\<close>

theorem factorizations_reconstruct:
  fixes A :: "'a::field ColumnMatrix"
  assumes "wf_mat A"
  shows "(\<exists>F. LEUP A = Inr F \<and> LEUP_prod F = A) \<and>
         (\<exists>F. PLEU A = Inr F \<and> PLEU_prod F = A) \<and>
         (\<exists>F. UELP A = Inr F \<and> UELP_prod F = A) \<and>
         (\<exists>F. PUEL A = Inr F \<and> PUEL_prod F = A)"
proof (intro conjI)
  show "\<exists>F. LEUP A = Inr F \<and> LEUP_prod F = A" using LEUP_correct[OF assms] by blast
  show "\<exists>F. PLEU A = Inr F \<and> PLEU_prod F = A" using PLEU_correct[OF assms] by blast
  show "\<exists>F. UELP A = Inr F \<and> UELP_prod F = A" using UELP_correct[OF assms] by blast
  show "\<exists>F. PUEL A = Inr F \<and> PUEL_prod F = A" using PUEL_correct[OF assms] by blast
qed

theorem factorizations_reconstruct_witness:
  "wf_mat \<lparr>nrow = 2, ncol = 2, col = [[(1, 2 :: rat)], [(0, 1), (1, 3)]]\<rparr> \<and>
   (\<exists>F. LEUP \<lparr>nrow = 2, ncol = 2, col = [[(1, 2 :: rat)], [(0, 1), (1, 3)]]\<rparr> = Inr F \<and>
        LEUP_prod F = \<lparr>nrow = 2, ncol = 2, col = [[(1, 2)], [(0, 1), (1, 3)]]\<rparr>) \<and>
   (\<exists>F. PUEL \<lparr>nrow = 2, ncol = 2, col = [[(1, 2 :: rat)], [(0, 1), (1, 3)]]\<rparr> = Inr F \<and>
        PUEL_prod F = \<lparr>nrow = 2, ncol = 2, col = [[(1, 2)], [(0, 1), (1, 3)]]\<rparr>)"
proof -
  have h: "wf_mat \<lparr>nrow = 2, ncol = 2, col = [[(1, 2 :: rat)], [(0, 1), (1, 3)]]\<rparr>"
    by (simp add: wf_mat_def wf_vec_def)
  from factorizations_reconstruct[OF h] h show ?thesis by blast
qed

text \<open>
  C2.  For a well-formed matrix every returned bundle has \<open>L\<close> lower triangular with
  unit diagonal, \<open>U\<close> upper triangular with unit diagonal, \<open>P\<close> a pivot matrix, and
  \<open>E\<close> of the shape of its entry point: \<open>EL\<close> for \<open>LEUP\<close>, \<open>EU\<close> for \<open>PLEU\<close>,
  \<open>ELhat\<close> for \<open>UELP\<close>, \<open>EUhat\<close> for \<open>PUEL\<close> (the shapes as section 3 of the
  spec words them).
\<close>

theorem factorization_shapes:
  fixes A :: "'a::field ColumnMatrix"
  assumes "wf_mat A"
  shows "(\<exists>F. LEUP A = Inr F \<and> is_lower (L F) \<and> unit_diagonal (L F) \<and> is_upper (U F) \<and>
              unit_diagonal (U F) \<and> is_pivot_matrix (P F) \<and> is_EL (E F)) \<and>
         (\<exists>F. PLEU A = Inr F \<and> is_lower (L F) \<and> unit_diagonal (L F) \<and> is_upper (U F) \<and>
              unit_diagonal (U F) \<and> is_pivot_matrix (P F) \<and> is_EU (E F)) \<and>
         (\<exists>F. UELP A = Inr F \<and> is_lower (L F) \<and> unit_diagonal (L F) \<and> is_upper (U F) \<and>
              unit_diagonal (U F) \<and> is_pivot_matrix (P F) \<and> is_ELhat (E F)) \<and>
         (\<exists>F. PUEL A = Inr F \<and> is_lower (L F) \<and> unit_diagonal (L F) \<and> is_upper (U F) \<and>
              unit_diagonal (U F) \<and> is_pivot_matrix (P F) \<and> is_EUhat (E F))"
proof (intro conjI)
  from LEUP_correct[OF assms] obtain F where
    "LEUP A = Inr F" "good_fact (nrow A) (ncol A) (ncol A) F" "is_EL (E F)" by blast
  then show "\<exists>F. LEUP A = Inr F \<and> is_lower (L F) \<and> unit_diagonal (L F) \<and> is_upper (U F) \<and>
              unit_diagonal (U F) \<and> is_pivot_matrix (P F) \<and> is_EL (E F)"
    using good_factD(4,5,9,10,14)[of "nrow A" "ncol A" "ncol A" F] by (auto intro: perm_cols_pivot)
next
  from PLEU_correct[OF assms] obtain F where
    "PLEU A = Inr F" "good_fact (nrow A) (ncol A) (nrow A) F" "is_EU (E F)" by blast
  then show "\<exists>F. PLEU A = Inr F \<and> is_lower (L F) \<and> unit_diagonal (L F) \<and> is_upper (U F) \<and>
              unit_diagonal (U F) \<and> is_pivot_matrix (P F) \<and> is_EU (E F)"
    using good_factD(4,5,9,10,14)[of "nrow A" "ncol A" "nrow A" F] by (auto intro: perm_cols_pivot)
next
  from UELP_correct[OF assms]
  show "\<exists>F. UELP A = Inr F \<and> is_lower (L F) \<and> unit_diagonal (L F) \<and> is_upper (U F) \<and>
              unit_diagonal (U F) \<and> is_pivot_matrix (P F) \<and> is_ELhat (E F)"
    by (auto intro: perm_cols_pivot)
next
  from PUEL_correct[OF assms]
  show "\<exists>F. PUEL A = Inr F \<and> is_lower (L F) \<and> unit_diagonal (L F) \<and> is_upper (U F) \<and>
              unit_diagonal (U F) \<and> is_pivot_matrix (P F) \<and> is_EUhat (E F)"
    by (auto intro: perm_cols_pivot)
qed

theorem factorization_shapes_witness:
  "wf_mat \<lparr>nrow = 2, ncol = 3, col = [[(1, 2 :: rat)], [], [(0, 1), (1, 3)]]\<rparr> \<and>
   (\<exists>F. UELP \<lparr>nrow = 2, ncol = 3, col = [[(1, 2 :: rat)], [], [(0, 1), (1, 3)]]\<rparr> = Inr F \<and>
        is_lower (L F) \<and> unit_diagonal (L F) \<and> is_upper (U F) \<and> unit_diagonal (U F) \<and>
        is_pivot_matrix (P F) \<and> is_ELhat (E F))"
proof -
  have h: "wf_mat \<lparr>nrow = 2, ncol = 3, col = [[(1, 2 :: rat)], [], [(0, 1), (1, 3)]]\<rparr>"
    by (simp add: wf_mat_def wf_vec_def)
  from factorization_shapes[OF h] h show ?thesis by blast
qed

text \<open>
  C9.  For a well-formed square matrix, \<open>PUEL_inplace\<close> on the bundle with \<open>E = A\<close>
  and identity \<open>L\<close>, \<open>U\<close>, \<open>P\<close> returns the very bundle \<open>PUEL A\<close> returns, although
  the one undoes the symmetry by conjugating and then transposing and the other by
  transposing and then conjugating.
\<close>

theorem PUEL_inplace_agrees:
  fixes A :: "'a::field ColumnMatrix"
  assumes "wf_mat A" "nrow A = ncol A"
  shows "\<exists>F. PUEL A = Inr F \<and>
    PUEL_inplace \<lparr>L = identity (nrow A), E = A, U = identity (nrow A), P = identity (nrow A)\<rparr> = Inr F"
  using assms by (rule PUEL_inplace_eq)

theorem PUEL_inplace_agrees_witness:
  "wf_mat \<lparr>nrow = 2, ncol = 2, col = [[(1, 2 :: rat)], [(0, 1), (1, 3)]]\<rparr> \<and>
   nrow \<lparr>nrow = 2, ncol = 2, col = [[(1, 2 :: rat)], [(0, 1), (1, 3)]]\<rparr> =
   ncol \<lparr>nrow = 2, ncol = 2, col = [[(1, 2 :: rat)], [(0, 1), (1, 3)]]\<rparr> \<and>
   (\<exists>F. PUEL \<lparr>nrow = 2, ncol = 2, col = [[(1, 2 :: rat)], [(0, 1), (1, 3)]]\<rparr> = Inr F \<and>
     PUEL_inplace \<lparr>L = identity 2, E = \<lparr>nrow = 2, ncol = 2, col = [[(1, 2 :: rat)], [(0, 1), (1, 3)]]\<rparr>,
        U = identity 2, P = identity 2\<rparr> = Inr F)"
proof -
  have h: "wf_mat \<lparr>nrow = 2, ncol = 2, col = [[(1, 2 :: rat)], [(0, 1), (1, 3)]]\<rparr>"
    by (simp add: wf_mat_def wf_vec_def)
  from PUEL_inplace_agrees[OF h] h show ?thesis by simp
qed

text \<open>
  C6.  For every size \<open>n\<close> and over every field, each of the four entry points maps
  the identity matrix of size \<open>n\<close> to the bundle whose four factors are that identity
  matrix, and the identity matrix has every shape of section 3: upper, lower, pivot,
  \<open>EL\<close>, \<open>EU\<close>, \<open>ELhat\<close> and \<open>EUhat\<close>.
\<close>

theorem identity_fixed_point:
  fixes n :: nat
  defines "I \<equiv> (identity n :: 'a::field ColumnMatrix)"
  shows "LEUP I = Inr \<lparr>L = I, E = I, U = I, P = I\<rparr> \<and>
         PLEU I = Inr \<lparr>L = I, E = I, U = I, P = I\<rparr> \<and>
         UELP I = Inr \<lparr>L = I, E = I, U = I, P = I\<rparr> \<and>
         PUEL I = Inr \<lparr>L = I, E = I, U = I, P = I\<rparr> \<and>
         is_upper I \<and> is_lower I \<and> is_pivot_matrix I \<and>
         is_EL I \<and> is_EU I \<and> is_ELhat I \<and> is_EUhat I"
  unfolding I_def
  using LEUP_identity[of n] PLEU_identity[of n] UELP_identity[of n] PUEL_identity[of n]
    shapes_identity[of n]
  by (simp add: id_fact_def)

section \<open>Commutation\<close>

text \<open>
  C3.  The 1 by 1 rational matrix \<open>[2]\<close> is the \<open>E\<close> that \<open>LEUP\<close> returns for \<open>[2]\<close>,
  and \<open>[1]\<close> is lower triangular with unit diagonal.  For \<open>E = [2]\<close> and \<open>L = [1]\<close>,
  \<open>EL_L_commute\<close> returns \<open>[2]\<close>: the diagonal entry is the pivot of \<open>E\<close>, not one, and
  the product of the result with \<open>E\<close> is \<open>[4]\<close> while \<open>E\<close> times \<open>L\<close> is \<open>[2]\<close>.
\<close>

theorem EL_L_commute_rescales_pivot:
  "LEUP \<lparr>nrow = 1, ncol = 1, col = [[(0, 2 :: rat)]]\<rparr> =
     Inr \<lparr>L = identity 1, E = \<lparr>nrow = 1, ncol = 1, col = [[(0, 2)]]\<rparr>,
          U = identity 1, P = identity 1\<rparr> \<and>
   is_lower (identity 1 :: rat ColumnMatrix) \<and> unit_diagonal (identity 1 :: rat ColumnMatrix) \<and>
   EL_L_commute \<lparr>nrow = 1, ncol = 1, col = [[(0, 2 :: rat)]]\<rparr> (identity 1) =
     Inr \<lparr>nrow = 1, ncol = 1, col = [[(0, 2)]]\<rparr> \<and>
   \<not> unit_diagonal \<lparr>nrow = 1, ncol = 1, col = [[(0, 2 :: rat)]]\<rparr> \<and>
   mat_mult \<lparr>nrow = 1, ncol = 1, col = [[(0, 2 :: rat)]]\<rparr>
            \<lparr>nrow = 1, ncol = 1, col = [[(0, 2)]]\<rparr> =
     \<lparr>nrow = 1, ncol = 1, col = [[(0, 4)]]\<rparr> \<and>
   mat_mult \<lparr>nrow = 1, ncol = 1, col = [[(0, 2 :: rat)]]\<rparr> (identity 1) =
     \<lparr>nrow = 1, ncol = 1, col = [[(0, 2)]]\<rparr>"
  by code_simp

text \<open>
  C4, as stated, fails: \<open>EL_L_commute\<close> on the 2 by 2 identity as \<open>E\<close> and the 3 by 3
  identity as \<open>L\<close>, whose size is not the column count of \<open>E\<close>, returns the 2 by 2
  identity.
\<close>

theorem EL_L_commute_accepts_mismatch:
  "nrow (identity 3 :: rat ColumnMatrix) \<noteq> ncol (identity 2 :: rat ColumnMatrix) \<and>
   EL_L_commute (identity 2 :: rat ColumnMatrix) (identity 3) = Inr (identity 2)"
  by code_simp

text \<open>
  C4, amended.  \<open>EL_L_commute\<close> compares no dimensions.  For a well-formed \<open>E\<close> with
  \<open>m\<close> rows and \<open>n\<close> columns it returns a matrix with \<open>m\<close> rows and \<open>m\<close> columns whenever
  \<open>L\<close> holds at least \<open>n\<close> columns and the entries of its first \<open>n\<close> columns have row
  indices below \<open>n\<close>, whatever the row and column counts of \<open>L\<close> are.
\<close>

theorem EL_L_commute_checks_no_dimension:
  fixes Em Lm :: "'a::field ColumnMatrix"
  assumes "wf_mat Em" "ncol Em \<le> length (col Lm)"
    "\<forall>ell<ncol Em. \<forall>p\<in>set (col Lm ! ell). fst p < ncol Em"
  shows "\<exists>M. EL_L_commute Em Lm = Inr M \<and> nrow M = nrow Em \<and> ncol M = nrow Em"
  using EL_L_commute_unfold[OF assms] by auto

theorem EL_L_commute_checks_no_dimension_witness:
  "wf_mat (identity 2 :: rat ColumnMatrix) \<and>
   ncol (identity 2 :: rat ColumnMatrix) \<le> length (col (identity 3 :: rat ColumnMatrix)) \<and>
   nrow (identity 3 :: rat ColumnMatrix) \<noteq> ncol (identity 2 :: rat ColumnMatrix) \<and>
   (\<exists>M. EL_L_commute (identity 2 :: rat ColumnMatrix) (identity 3) = Inr M \<and> nrow M = 2 \<and> ncol M = 2)"
proof -
  have h: "\<forall>ell<ncol (identity 2 :: rat ColumnMatrix).
      \<forall>p\<in>set (col (identity 3 :: rat ColumnMatrix) ! ell). fst p < ncol (identity 2 :: rat ColumnMatrix)"
    by (simp add: identity_def less_Suc_eq numeral_2_eq_2 numeral_3_eq_3)
  from EL_L_commute_checks_no_dimension[OF wf_identity _ h] show ?thesis by simp
qed

text \<open>
  C5, as stated, fails.  The 1 by 2 matrix with columns \<open>0\<close> and \<open>(2)\<close> is \<open>EL\<close>-shaped;
  \<open>extract_row_scale\<close> stops at the zero column and leaves the pivot 2 as it is.  The 2
  by 2 matrix with columns \<open>(2, 3)\<close> and \<open>(0, 5)\<close> is \<open>EL\<close>-shaped; its pivots become one
  and the coefficients are 2 and 5, but scaling the rows of the normalised matrix by
  them gives 15 where the matrix holds 3.
\<close>

theorem extract_row_scale_not_round_trip:
  "is_EL \<lparr>nrow = 1, ncol = 2, col = [[], [(0, 2 :: rat)]]\<rparr> \<and>
   extract_row_scale \<lparr>nrow = 1, ncol = 2, col = [[], [(0, 2 :: rat)]]\<rparr> =
     Inr (\<lparr>nrow = 1, ncol = 2, col = [[], [(0, 2)]]\<rparr>, [1]) \<and>
   is_EL \<lparr>nrow = 2, ncol = 2, col = [[(0, 2 :: rat), (1, 3)], [(1, 5)]]\<rparr> \<and>
   extract_row_scale \<lparr>nrow = 2, ncol = 2, col = [[(0, 2 :: rat), (1, 3)], [(1, 5)]]\<rparr> =
     Inr (\<lparr>nrow = 2, ncol = 2, col = [[(0, 1), (1, 3)], [(1, 1)]]\<rparr>, [2, 5]) \<and>
   row_scale [2, 5] \<lparr>nrow = 2, ncol = 2, col = [[(0, 1 :: rat), (1, 3)], [(1, 1)]]\<rparr> =
     \<lparr>nrow = 2, ncol = 2, col = [[(0, 2), (1, 15)], [(1, 5)]]\<rparr>"
  by code_simp

text \<open>
  C5, amended.  For every well-formed \<open>E\<close> of the shape \<open>LEUP\<close> returns (the nonzero
  columns come first, each holds a single entry, and the rows of these entries strictly
  increase), \<open>extract_row_scale\<close> returns the matrix with every pivot set to one and one
  coefficient per row, equal to one for a row that holds no pivot, and scaling the rows
  of the normalised matrix by the coefficients gives \<open>E\<close> back.
\<close>

theorem extract_row_scale_round_trip:
  fixes Em :: "'a::field ColumnMatrix"
  assumes "wf_mat Em" "is_EL_reduced Em"
  shows "\<exists>E' cs. extract_row_scale Em = Inr (E', cs) \<and> length cs = nrow Em \<and>
     (\<forall>j<ncol Em. col Em ! j \<noteq> [] \<longrightarrow> col E' ! j = [(fst (hd (col Em ! j)), 1)]) \<and>
     (\<forall>r<nrow Em. (\<forall>j<ncol Em. pivot_ind Em j \<noteq> Some r) \<longrightarrow> cs ! r = 1) \<and>
     row_scale cs E' = Em"
  using assms by (rule extract_row_scale_reduced)

theorem extract_row_scale_round_trip_witness:
  "wf_mat \<lparr>nrow = 3, ncol = 3, col = [[(0, 2 :: rat)], [(2, 3)], []]\<rparr> \<and>
   is_EL_reduced \<lparr>nrow = 3, ncol = 3, col = [[(0, 2 :: rat)], [(2, 3)], []]\<rparr> \<and>
   (\<exists>E' cs. extract_row_scale \<lparr>nrow = 3, ncol = 3, col = [[(0, 2 :: rat)], [(2, 3)], []]\<rparr> = Inr (E', cs) \<and>
      length cs = 3 \<and> col E' ! 0 = [(0, 1)] \<and> col E' ! 1 = [(2, 1)] \<and> cs ! 1 = 1 \<and>
      row_scale cs E' = \<lparr>nrow = 3, ncol = 3, col = [[(0, 2)], [(2, 3)], []]\<rparr>)"
proof -
  let ?E = "\<lparr>nrow = 3, ncol = 3, col = [[(0, 2 :: rat)], [(2, 3)], []]\<rparr>"
  have h: "wf_mat ?E" "is_EL_reduced ?E"
    by (simp_all add: wf_mat_def wf_vec_def is_EL_reduced_def is_EL_def)
  have p: "\<forall>j<ncol ?E. pivot_ind ?E j \<noteq> Some 1"
    by (simp add: pivot_ind_def nzbegin_def less_Suc_eq numeral_3_eq_3)
  from extract_row_scale_round_trip[OF h] obtain E' cs where
    r: "extract_row_scale ?E = Inr (E', cs)" "length cs = nrow ?E"
    "\<forall>j<ncol ?E. col ?E ! j \<noteq> [] \<longrightarrow> col E' ! j = [(fst (hd (col ?E ! j)), 1)]"
    "\<forall>r<nrow ?E. (\<forall>j<ncol ?E. pivot_ind ?E j \<noteq> Some r) \<longrightarrow> cs ! r = 1"
    "row_scale cs E' = ?E"
    by blast
  have "col E' ! 0 = [(0, 1)]" "col E' ! 1 = [(2, 1)]" using r(3) by simp_all
  moreover have "cs ! 1 = 1" using r(4) p by simp
  ultimately show ?thesis using h r(1,2,5) by simp
qed

text \<open>
  C10.  For a well-formed \<open>EL\<close>-shaped \<open>E\<close> and a well-formed \<open>L\<close> whose row and column
  counts are the column count of \<open>E\<close> (in particular a lower triangular one with unit
  diagonal), \<open>EL_L_commute\<close> returns a matrix in which every column whose index is not a
  pivot row of \<open>E\<close> is the standard basis vector of that index.
\<close>

theorem EL_L_commute_nonpivot_columns:
  fixes Em Lm :: "'a::field ColumnMatrix"
  assumes "wf_mat Em" "is_EL Em" "wf_mat Lm" "nrow Lm = ncol Em" "ncol Lm = ncol Em"
  shows "\<exists>M. EL_L_commute Em Lm = Inr M \<and>
     (\<forall>c<nrow Em. (\<forall>j<ncol Em. pivot_ind Em j \<noteq> Some c) \<longrightarrow> col M ! c = [(c, 1)])"
proof -
  have l: "ncol Em \<le> length (col Lm)" using assms(3,5) by (simp add: wf_mat_len)
  have b: "\<forall>ell<ncol Em. \<forall>p\<in>set (col Lm ! ell). fst p < ncol Em"
    using wf_mat_bound[OF assms(3)] assms(4,5) by simp
  from EL_L_commute_nonpivot_col[OF assms(1,2) l b] show ?thesis by blast
qed

theorem EL_L_commute_nonpivot_columns_witness:
  "wf_mat \<lparr>nrow = 3, ncol = 2, col = [[(0, 2 :: rat)], [(2, 3)]]\<rparr> \<and>
   is_EL \<lparr>nrow = 3, ncol = 2, col = [[(0, 2 :: rat)], [(2, 3)]]\<rparr> \<and>
   wf_mat \<lparr>nrow = 2, ncol = 2, col = [[(0, 1 :: rat), (1, 5)], [(1, 1)]]\<rparr> \<and>
   (\<exists>M. EL_L_commute \<lparr>nrow = 3, ncol = 2, col = [[(0, 2 :: rat)], [(2, 3)]]\<rparr>
           \<lparr>nrow = 2, ncol = 2, col = [[(0, 1), (1, 5)], [(1, 1)]]\<rparr> = Inr M \<and>
        col M ! 1 = [(1, 1)])"
proof -
  let ?E = "\<lparr>nrow = 3, ncol = 2, col = [[(0, 2 :: rat)], [(2, 3)]]\<rparr>"
  let ?L = "\<lparr>nrow = 2, ncol = 2, col = [[(0, 1 :: rat), (1, 5)], [(1, 1)]]\<rparr>"
  have h: "wf_mat ?E" "is_EL ?E" "wf_mat ?L" "nrow ?L = ncol ?E" "ncol ?L = ncol ?E"
    by (simp_all add: wf_mat_def wf_vec_def is_EL_def)
  have p: "\<forall>j<ncol ?E. pivot_ind ?E j \<noteq> Some 1"
    by (simp add: pivot_ind_def nzbegin_def less_Suc_eq numeral_2_eq_2)
  from EL_L_commute_nonpivot_columns[OF h] obtain M where
    r: "EL_L_commute ?E ?L = Inr M"
    "\<forall>c<nrow ?E. (\<forall>j<ncol ?E. pivot_ind ?E j \<noteq> Some c) \<longrightarrow> col M ! c = [(c, 1)]"
    by blast
  have "col M ! 1 = [(1, 1)]" using r(2) p by simp
  then show ?thesis using h r(1) by simp
qed

text \<open>
  C7.  Every matrix that comes back is well formed: each column is a list of (row
  index, value) pairs with strictly increasing indices below the row count and no
  stored zero.  This holds for the four factors of each of the four factorizations of a
  well-formed matrix, for the result of \<open>EL_L_commute\<close> on a well-formed \<open>EL\<close>-shaped \<open>E\<close>
  and a well-formed \<open>L\<close> of matching size, and for the result of \<open>L_EL_commute\<close> on
  well-formed operands of matching size for which the transposed and conjugated \<open>E\<close>,
  the matrix \<open>EL_L_commute\<close> is run on, is \<open>EL\<close>-shaped.
\<close>

theorem outputs_well_formed:
  fixes A Em Lm Eh Lh :: "'a::field ColumnMatrix"
  shows "(wf_mat A \<longrightarrow>
            (\<exists>F. LEUP A = Inr F \<and> wf_mat (L F) \<and> wf_mat (E F) \<and> wf_mat (U F) \<and> wf_mat (P F)) \<and>
            (\<exists>F. PLEU A = Inr F \<and> wf_mat (L F) \<and> wf_mat (E F) \<and> wf_mat (U F) \<and> wf_mat (P F)) \<and>
            (\<exists>F. UELP A = Inr F \<and> wf_mat (L F) \<and> wf_mat (E F) \<and> wf_mat (U F) \<and> wf_mat (P F)) \<and>
            (\<exists>F. PUEL A = Inr F \<and> wf_mat (L F) \<and> wf_mat (E F) \<and> wf_mat (U F) \<and> wf_mat (P F))) \<and>
         (wf_mat Em \<and> is_EL Em \<and> wf_mat Lm \<and> nrow Lm = ncol Em \<and> ncol Lm = ncol Em \<longrightarrow>
            (\<exists>M. EL_L_commute Em Lm = Inr M \<and> wf_mat M)) \<and>
         (wf_mat Eh \<and> is_EL (J_conjugation (T Eh)) \<and> wf_mat Lh \<and> nrow Lh = nrow Eh \<and> ncol Lh = nrow Eh \<longrightarrow>
            (\<exists>M. L_EL_commute Lh Eh = Inr M \<and> wf_mat M))"
proof (intro conjI impI)
  assume wf: "wf_mat A"
  from LEUP_correct[OF wf] obtain F where "LEUP A = Inr F" "good_fact (nrow A) (ncol A) (ncol A) F"
    by blast
  then show "\<exists>F. LEUP A = Inr F \<and> wf_mat (L F) \<and> wf_mat (E F) \<and> wf_mat (U F) \<and> wf_mat (P F)"
    using good_factD(1,6,11,15)[of "nrow A" "ncol A" "ncol A" F] by blast
  from PLEU_correct[OF wf] obtain F where "PLEU A = Inr F" "good_fact (nrow A) (ncol A) (nrow A) F"
    by blast
  then show "\<exists>F. PLEU A = Inr F \<and> wf_mat (L F) \<and> wf_mat (E F) \<and> wf_mat (U F) \<and> wf_mat (P F)"
    using good_factD(1,6,11,15)[of "nrow A" "ncol A" "nrow A" F] by blast
  from UELP_correct[OF wf]
  show "\<exists>F. UELP A = Inr F \<and> wf_mat (L F) \<and> wf_mat (E F) \<and> wf_mat (U F) \<and> wf_mat (P F)"
    by (auto intro: perm_cols_wf)
  from PUEL_correct[OF wf]
  show "\<exists>F. PUEL A = Inr F \<and> wf_mat (L F) \<and> wf_mat (E F) \<and> wf_mat (U F) \<and> wf_mat (P F)"
    by (auto intro: perm_cols_wf)
next
  assume "wf_mat Em \<and> is_EL Em \<and> wf_mat Lm \<and> nrow Lm = ncol Em \<and> ncol Lm = ncol Em"
  then show "\<exists>M. EL_L_commute Em Lm = Inr M \<and> wf_mat M"
    using wf_EL_L_commute[of Em Lm] by blast
next
  assume "wf_mat Eh \<and> is_EL (J_conjugation (T Eh)) \<and> wf_mat Lh \<and> nrow Lh = nrow Eh \<and> ncol Lh = nrow Eh"
  then show "\<exists>M. L_EL_commute Lh Eh = Inr M \<and> wf_mat M"
    using wf_L_EL_commute[of Eh Lh] by blast
qed

theorem outputs_well_formed_witness:
  "wf_mat \<lparr>nrow = 2, ncol = 3, col = [[(0, 1 :: rat)], [(0, 2)], [(1, 3)]]\<rparr> \<and>
   (\<exists>F. PUEL \<lparr>nrow = 2, ncol = 3, col = [[(0, 1 :: rat)], [(0, 2)], [(1, 3)]]\<rparr> = Inr F \<and>
      wf_mat (L F) \<and> wf_mat (E F) \<and> wf_mat (U F) \<and> wf_mat (P F)) \<and>
   wf_mat \<lparr>nrow = 3, ncol = 2, col = [[(0, 2 :: rat)], [(2, 3)]]\<rparr> \<and>
   is_EL \<lparr>nrow = 3, ncol = 2, col = [[(0, 2 :: rat)], [(2, 3)]]\<rparr> \<and>
   wf_mat \<lparr>nrow = 2, ncol = 2, col = [[(0, 1 :: rat), (1, 5)], [(1, 1)]]\<rparr> \<and>
   (\<exists>M. EL_L_commute \<lparr>nrow = 3, ncol = 2, col = [[(0, 2 :: rat)], [(2, 3)]]\<rparr>
           \<lparr>nrow = 2, ncol = 2, col = [[(0, 1), (1, 5)], [(1, 1)]]\<rparr> = Inr M \<and> wf_mat M) \<and>
   wf_mat \<lparr>nrow = 2, ncol = 3, col = [[], [(0, 2 :: rat)], [(1, 3)]]\<rparr> \<and>
   is_EL (J_conjugation (T \<lparr>nrow = 2, ncol = 3, col = [[], [(0, 2 :: rat)], [(1, 3)]]\<rparr>)) \<and>
   (\<exists>M. L_EL_commute \<lparr>nrow = 2, ncol = 2, col = [[(0, 1 :: rat), (1, 5)], [(1, 1)]]\<rparr>
           \<lparr>nrow = 2, ncol = 3, col = [[], [(0, 2)], [(1, 3)]]\<rparr> = Inr M \<and> wf_mat M)"
proof -
  let ?A = "\<lparr>nrow = 2, ncol = 3, col = [[(0, 1 :: rat)], [(0, 2)], [(1, 3)]]\<rparr>"
  let ?E = "\<lparr>nrow = 3, ncol = 2, col = [[(0, 2 :: rat)], [(2, 3)]]\<rparr>"
  let ?L = "\<lparr>nrow = 2, ncol = 2, col = [[(0, 1 :: rat), (1, 5)], [(1, 1)]]\<rparr>"
  let ?Eh = "\<lparr>nrow = 2, ncol = 3, col = [[], [(0, 2 :: rat)], [(1, 3)]]\<rparr>"
  have h: "wf_mat ?A" "wf_mat ?E" "is_EL ?E" "wf_mat ?L" "wf_mat ?Eh"
    by (simp_all add: wf_mat_def wf_vec_def is_EL_def)
  have j: "is_EL (J_conjugation (T ?Eh))" by code_simp
  have d: "nrow ?L = ncol ?E" "ncol ?L = ncol ?E" "nrow ?L = nrow ?Eh" "ncol ?L = nrow ?Eh" by simp_all
  from outputs_well_formed[of ?A ?E ?L ?Eh ?L] h j d show ?thesis by blast
qed

section \<open>The dense product\<close>

text \<open>
  C8.  The 3 by 3 integer matrix with rows (2,3,4), (1,2,3), (8,5,2), multiplied by
  itself with \<open>matmul\<close>, is the matrix with rows (39,32,25), (28,22,16), (37,44,51).
\<close>

theorem matmul_scenario:
  "matmul \<lparr>d_rows = 3, d_cols = 3, d_mem = [2, 3, 4, 1, 2, 3, 8, 5, 2 :: int]\<rparr>
          \<lparr>d_rows = 3, d_cols = 3, d_mem = [2, 3, 4, 1, 2, 3, 8, 5, 2]\<rparr>
   = \<lparr>d_rows = 3, d_cols = 3, d_mem = [39, 32, 25, 28, 22, 16, 37, 44, 51]\<rparr>"
  by code_simp

end
